theory Spec2Isabelle
  imports Main "HOL-Library.AList"
begin

section \<open>Data model of \<^verbatim>\<open>modules/joins/graph.ts\<close>\<close>

text \<open>
  The module builds a tree of \<^verbatim>\<open>Node\<close> objects for a pool and its nested pools,
  orders it breadth first and extracts the chain of nodes from one token up to the root.
  Nodes are JavaScript objects: they are shared through the \<^verbatim>\<open>children\<close> and
  \<^verbatim>\<open>parent\<close> fields and two of the functions assign to fields of nodes they were
  given. The model therefore keeps the nodes in an explicit store: a list of node values,
  a reference being a position in the list. Creating an object appends to the store, an
  assignment to a field updates the store in place.

  Numbers that count nodes are integers (\<^verbatim>\<open>number\<close> in the source, used within the
  safe-integer range), \<^verbatim>\<open>BigNumber\<close> values are unbounded integers, strings are
  lists of characters.
\<close>

datatype JoinAction =
    J_input | J_batchSwap | J_wrap | J_joinPool | J_wrapAaveDynamicToken | J_wrapERC4626

datatype ExitAction =
    E_output | E_batchSwap | E_unwrap | E_exitPool | E_unwrapAaveStaticToken | E_unwrapERC4626

type_synonym ref = nat

record node =
  address :: string
  node_id :: string
  joinAction :: JoinAction
  exitAction :: ExitAction
  node_type :: string
  children :: "ref list"
  marked :: bool
  index :: string
  proportionOfParent :: int
  parent :: "ref option"
  isLeaf :: bool
  spotPrices :: "(string \<times> string) list"
  decimals :: nat

type_synonym heap = "node list"

text \<open>
  The errors the functions can stop with. The first three are the \<^verbatim>\<open>BalancerError\<close>
  codes thrown by the module, \<open>IssueWithLinearPool\<close> is the plain
  \<^verbatim>\<open>Error('Issue With Linear Pool')\<close>, \<open>TypeError\<close> is what JavaScript raises on a
  property read of \<^verbatim>\<open>undefined\<close>, \<open>DivisionByZero\<close> is the fault raised by
  \<^verbatim>\<open>BigNumber.div\<close>. The last two are not errors of the program. \<open>OutOfFuel\<close>: the
  recursive descent over nested pools need not end (pool records may refer to each
  other), and the model bounds its depth by a fuel argument. \<open>UndefinedAddress\<close>: a
  linear pool whose main or wrapped slot lies outside \<^verbatim>\<open>tokensList\<close> would give a
  node whose address is \<^verbatim>\<open>undefined\<close>; a node of the model always has an address
  string, and the model stops there.
\<close>

datatype error =
    POOL_DOESNT_EXIST | UNSUPPORTED_POOL_TYPE | INPUT_TOKEN_INVALID
  | IssueWithLinearPool | TypeError | DivisionByZero | OutOfFuel | UndefinedAddress

text \<open>
  Modelled from the spec: the types \<^verbatim>\<open>Pool\<close> and \<^verbatim>\<open>PoolType\<close> of \<^verbatim>\<open>@/types\<close> are
  declared outside the module. The records keep the fields \<^verbatim>\<open>graph.ts\<close> reads: the
  address, the id, the category, the token list with address, decimals and balance of
  every token, the list of token addresses, and the main and wrapped slots of a linear
  pool. The category is the category string of the spec: a member of the enumeration
  \<^verbatim>\<open>PoolType\<close> is taken to be the string of its name.
\<close>

record token =
  token_address :: string
  token_decimals :: "nat option"
  token_balance :: int

record pool =
  pool_address :: string
  pool_id :: string
  poolType :: string
  tokens :: "token list"
  tokensList :: "string list"
  mainIndex :: "nat option"
  wrappedIndex :: "nat option"

text \<open>
  Modelled from the spec: \<^verbatim>\<open>parsePoolInfo\<close> of \<^verbatim>\<open>@/lib/utils\<close> is not part of the
  module. Its \<^verbatim>\<open>parsedBalances\<close> holds one parsed balance for every entry of
  \<^verbatim>\<open>pool.tokens\<close>, in the order of the tokens; the field \<open>token_balance\<close> is that
  parsed balance.
\<close>

definition parsedBalances :: "pool \<Rightarrow> int list" where
  "parsedBalances p = map token_balance (tokens p)"

text \<open>
  The collaborators passed to the constructor: the pool repository (\<^verbatim>\<open>find\<close> by id,
  \<^verbatim>\<open>findBy('address', _)\<close>) and the spot price of the pool controller
  (\<^verbatim>\<open>Pools.wrap(pool, network).calcSpotPrice\<close>).
\<close>

record repo =
  pools_find :: "string \<Rightarrow> pool option"
  pools_findBy :: "string \<Rightarrow> pool option"
  calcSpotPrice :: "pool \<Rightarrow> string \<Rightarrow> string \<Rightarrow> string"

section \<open>Strings, arrays and numbers of the host language\<close>

definition toLowerCaseChar :: "char \<Rightarrow> char" where
  "toLowerCaseChar c =
     (case map_of (zip ''ABCDEFGHIJKLMNOPQRSTUVWXYZ'' ''abcdefghijklmnopqrstuvwxyz'') c of
        None \<Rightarrow> c
      | Some l \<Rightarrow> l)"

text \<open>\<^verbatim>\<open>String.prototype.toLowerCase\<close>, on the ASCII letters that addresses are made of.\<close>

definition toLowerCase :: "string \<Rightarrow> string" where
  "toLowerCase s = map toLowerCaseChar s"

text \<open>\<^verbatim>\<open>String.prototype.includes\<close>: the pattern occurs as a contiguous part.\<close>

fun starts_with :: "string \<Rightarrow> string \<Rightarrow> bool" where
  "starts_with s [] = True"
| "starts_with [] (p # ps) = False"
| "starts_with (c # cs) (p # ps) = (c = p \<and> starts_with cs ps)"

fun str_includes :: "string \<Rightarrow> string \<Rightarrow> bool" where
  "str_includes [] pat = (pat = [])"
| "str_includes (c # cs) pat = (starts_with (c # cs) pat \<or> str_includes cs pat)"

definition digit_chars :: string where
  "digit_chars = ''0123456789''"

fun digits :: "nat \<Rightarrow> string" where
  "digits n =
     (if n < 10 then [digit_chars ! n]
      else digits (n div 10) @ [digit_chars ! (n mod 10)])"

declare digits.simps [simp del]

text \<open>\<^verbatim>\<open>Number.prototype.toString\<close> on an integer.\<close>

definition toString :: "int \<Rightarrow> string" where
  "toString i = (if i < 0 then CHR ''-'' # digits (nat (- i)) else digits (nat i))"

text \<open>\<^verbatim>\<open>Array.prototype.indexOf\<close>: the first position of the value, or \<open>-1\<close>.\<close>

fun indexOf :: "'a list \<Rightarrow> 'a \<Rightarrow> int" where
  "indexOf [] v = - 1"
| "indexOf (x # xs) v =
     (if x = v then 0 else (let i = indexOf xs v in if i < 0 then - 1 else i + 1))"

text \<open>An array read \<^verbatim>\<open>xs[i]\<close>: \<^verbatim>\<open>undefined\<close> (here \<open>None\<close>) outside the array.\<close>

definition at :: "'a list \<Rightarrow> int \<Rightarrow> 'a option" where
  "at xs i = (if 0 \<le> i \<and> nat i < length xs then Some (xs ! nat i) else None)"

definition WeiPerEther :: int where
  "WeiPerEther = 1000000000000000000"

text \<open>
  \<^verbatim>\<open>BigNumber.div\<close>: faults on a zero divisor, and truncates towards zero otherwise.
\<close>

definition trunc_div :: "int \<Rightarrow> int \<Rightarrow> int" where
  "trunc_div a b = sgn a * sgn b * (\<bar>a\<bar> div \<bar>b\<bar>)"

definition bn_div :: "int \<Rightarrow> int \<Rightarrow> error + int" where
  "bn_div a b = (if b = 0 then Inl DivisionByZero else Inr (trunc_div a b))"

section \<open>The store\<close>

definition alloc :: "heap \<Rightarrow> node \<Rightarrow> heap \<times> ref" where
  "alloc h n = (h @ [n], length h)"

definition push_child :: "heap \<Rightarrow> ref \<Rightarrow> ref \<Rightarrow> heap" where
  "push_child h p c = h[p := (h ! p)\<lparr>children := children (h ! p) @ [c]\<rparr>]"

section \<open>The action tables\<close>

definition joinActions :: "string \<Rightarrow> JoinAction option" where
  "joinActions = map_of
     [(''AaveLinear'', J_batchSwap),
      (''ERC4626Linear'', J_batchSwap),
      (''Element'', J_batchSwap),
      (''Investment'', J_joinPool),
      (''LiquidityBootstrapping'', J_joinPool),
      (''MetaStable'', J_joinPool),
      (''Stable'', J_joinPool),
      (''StablePhantom'', J_batchSwap),
      (''Weighted'', J_joinPool),
      (''ComposableStable'', J_joinPool)]"

definition exitActions :: "string \<Rightarrow> ExitAction option" where
  "exitActions = map_of
     [(''AaveLinear'', E_batchSwap),
      (''ERC4626Linear'', E_batchSwap),
      (''Element'', E_batchSwap),
      (''Investment'', E_exitPool),
      (''LiquidityBootstrapping'', E_exitPool),
      (''MetaStable'', E_exitPool),
      (''Stable'', E_exitPool),
      (''StablePhantom'', E_batchSwap),
      (''Weighted'', E_exitPool),
      (''ComposableStable'', E_exitPool)]"

section \<open>Building the tree\<close>

text \<open>\<^verbatim>\<open>getTokenTotal\<close>: the sum of the parsed balances, the one at \<open>bptIndex\<close> left out.\<close>

definition getTokenTotal :: "pool \<Rightarrow> int" where
  "getTokenTotal p =
     (let bptIndex = indexOf (tokensList p) (pool_address p)
      in sum_list (map snd (filter (\<lambda>(i, balance). bptIndex \<noteq> int i)
                                   (enumerate 0 (parsedBalances p)))))"

text \<open>
  \<^verbatim>\<open>createInputTokenNode\<close> returns a new object and the next index; the model also
  returns the store with the object in it.
\<close>

definition createInputTokenNode ::
  "heap \<Rightarrow> int \<Rightarrow> string \<Rightarrow> nat \<Rightarrow> ref option \<Rightarrow> int \<Rightarrow> heap \<times> ref \<times> int" where
  "createInputTokenNode h nodeIndex addr dec par proportion =
     (let (h', r) = alloc h
        \<lparr>address = addr, node_id = ''N/A'', joinAction = J_input, exitAction = E_output,
         node_type = ''Input'', children = [], marked = False,
         index = toString nodeIndex, proportionOfParent = proportion, parent = par,
         isLeaf = True, spotPrices = [], decimals = dec\<rparr>
      in (h', r, nodeIndex + 1))"

text \<open>
  \<^verbatim>\<open>createWrappedTokenNode\<close>. Reading \<^verbatim>\<open>tokens\<close> outside the array and then a
  property of the result raises a \<open>TypeError\<close>; reading \<^verbatim>\<open>tokensList\<close> outside the
  array gives \<^verbatim>\<open>undefined\<close> for the address of the node, where the model stops with
  \<open>UndefinedAddress\<close>.
\<close>

definition createWrappedTokenNode ::
  "heap \<Rightarrow> pool \<Rightarrow> int \<Rightarrow> ref option \<Rightarrow> int \<Rightarrow> error + (heap \<times> ref \<times> int)" where
  "createWrappedTokenNode h linearPool nodeIndex par proportion =
     (case (wrappedIndex linearPool, mainIndex linearPool) of
        (Some wi, Some mi) \<Rightarrow>
          (let ja = (if poolType linearPool = ''ERC4626Linear'' then J_wrapERC4626
                     else J_wrapAaveDynamicToken);
               ea = (if poolType linearPool = ''ERC4626Linear'' then E_unwrapERC4626
                     else E_unwrapAaveStaticToken)
           in case at (tokensList linearPool) (int wi) of
                None \<Rightarrow> Inl UndefinedAddress
              | Some waddr \<Rightarrow>
                 (let (h1, w) = alloc h
                    \<lparr>address = waddr, node_id = ''N/A'', joinAction = ja, exitAction = ea,
                     node_type = ''WrappedToken'', children = [], marked = False,
                     index = toString nodeIndex, proportionOfParent = proportion,
                     parent = par, isLeaf = False, spotPrices = [], decimals = 18\<rparr>
                  in case at (tokens linearPool) (int mi) of
                       None \<Rightarrow> Inl TypeError
                     | Some mt \<Rightarrow>
                        (case at (tokensList linearPool) (int mi) of
                           None \<Rightarrow> Inl UndefinedAddress
                         | Some maddr \<Rightarrow>
                            (let mainTokenDecimals =
                                   (case token_decimals mt of None \<Rightarrow> 18 | Some d \<Rightarrow> d);
                                 (h2, i, nodeIndex') =
                                   createInputTokenNode h1 (nodeIndex + 1) maddr
                                     mainTokenDecimals (Some w) proportion
                             in Inr (h2[w := (h2 ! w)\<lparr>children := [i]\<rparr>], w, nodeIndex')))))
      | _ \<Rightarrow> Inl IssueWithLinearPool)"

text \<open>
  \<^verbatim>\<open>createLinearNodeChildren\<close>; the read of \<^verbatim>\<open>tokensList\<close> outside the array is
  treated as in \<open>createWrappedTokenNode\<close>.
\<close>

definition createLinearNodeChildren ::
  "heap \<Rightarrow> ref \<Rightarrow> int \<Rightarrow> pool \<Rightarrow> bool \<Rightarrow> error + (heap \<times> ref \<times> int)" where
  "createLinearNodeChildren h linearPoolNode nodeIndex linearPool wrapMainTokens =
     (if wrapMainTokens then
        (case createWrappedTokenNode h linearPool nodeIndex (Some linearPoolNode)
                (proportionOfParent (h ! linearPoolNode)) of
           Inl e \<Rightarrow> Inl e
         | Inr (h1, w, nodeIndex') \<Rightarrow> Inr (push_child h1 linearPoolNode w, linearPoolNode, nodeIndex'))
      else
        (case mainIndex linearPool of
           None \<Rightarrow> Inl IssueWithLinearPool
         | Some mi \<Rightarrow>
            (case at (tokens linearPool) (int mi) of
               None \<Rightarrow> Inl TypeError
             | Some mt \<Rightarrow>
                (case at (tokensList linearPool) (int mi) of
                   None \<Rightarrow> Inl UndefinedAddress
                 | Some maddr \<Rightarrow>
                    (let mainTokenDecimals =
                           (case token_decimals mt of None \<Rightarrow> 18 | Some d \<Rightarrow> d);
                         (h1, i, nodeIndex') =
                           createInputTokenNode h nodeIndex maddr mainTokenDecimals
                             (Some linearPoolNode) (proportionOfParent (h ! linearPoolNode))
                     in Inr (push_child h1 linearPoolNode i, linearPoolNode, nodeIndex'))))))"

text \<open>
  The loop over \<^verbatim>\<open>pool.tokens\<close> that fills \<^verbatim>\<open>spotPrices\<close> (an object keyed by token
  address: a later entry for the same key replaces the value) and picks up the decimals of
  the pool's own token.
\<close>

fun poolTokenInfo ::
  "repo \<Rightarrow> pool \<Rightarrow> token list \<Rightarrow> (string \<times> string) list \<times> nat \<Rightarrow> (string \<times> string) list \<times> nat" where
  "poolTokenInfo R p [] acc = acc"
| "poolTokenInfo R p (t # ts) (sps, dec) =
     (if token_address t = pool_address p then
        poolTokenInfo R p ts
          (sps, (case token_decimals t of None \<Rightarrow> 18 | Some d \<Rightarrow> if d = 0 then 18 else d))
      else
        poolTokenInfo R p ts
          (AList.update (token_address t) (calcSpotPrice R p (token_address t) (pool_address p)) sps,
           dec))"

text \<open>
  \<^verbatim>\<open>buildGraphFromPool\<close>, with the loop over the pool's tokens of its last branch as
  \<open>expandTokens\<close>. The first argument after the repository is the fuel: one unit for
  every level of nesting. The calls of \<^verbatim>\<open>this.pools.findBy('address', _)\<close> are the
  effect of the function on its collaborator: both functions return, next to the result or
  the error, the addresses they looked up, in the order of the calls.
\<close>

fun buildGraphFromPool ::
    "repo \<Rightarrow> nat \<Rightarrow> heap \<Rightarrow> string \<Rightarrow> int \<Rightarrow> ref option \<Rightarrow> int \<Rightarrow> bool
       \<Rightarrow> (error + (heap \<times> ref \<times> int)) \<times> string list"
  and expandTokens ::
    "repo \<Rightarrow> nat \<Rightarrow> heap \<Rightarrow> pool \<Rightarrow> int \<Rightarrow> ref \<Rightarrow> int \<Rightarrow> bool \<Rightarrow> token list \<Rightarrow> int
       \<Rightarrow> (error + (heap \<times> int)) \<times> string list"
where
  "buildGraphFromPool R 0 h addr nodeIndex par proportion wrapMainTokens = (Inl OutOfFuel, [])"
| "buildGraphFromPool R (Suc fuel) h addr nodeIndex par proportion wrapMainTokens =
     (case pools_findBy R addr of
        None \<Rightarrow>
          (case par of
             None \<Rightarrow> (Inl POOL_DOESNT_EXIST, [addr])
           | Some pr \<Rightarrow>
              (case pools_findBy R (address (h ! pr)) of
                 None \<Rightarrow> (Inl TypeError, [addr, address (h ! pr)])
               | Some parentPool \<Rightarrow>
                  (case at (tokens parentPool) (indexOf (tokensList parentPool) addr) of
                     None \<Rightarrow> (Inl TypeError, [addr, address (h ! pr)])
                   | Some t \<Rightarrow>
                      (Inr (createInputTokenNode h nodeIndex addr
                              (case token_decimals t of None \<Rightarrow> 18 | Some d \<Rightarrow> d)
                              par proportion),
                       [addr, address (h ! pr)]))))
      | Some p \<Rightarrow>
          (case (joinActions (poolType p), exitActions (poolType p)) of
             (Some ja, Some ea) \<Rightarrow>
               (let tokenTotal = getTokenTotal p;
                    (sps, dec) = poolTokenInfo R p (tokens p) ([], 18);
                    (h1, poolNode) = alloc h
                      \<lparr>address = pool_address p, node_id = pool_id p, joinAction = ja,
                       exitAction = ea, node_type = poolType p, children = [], marked = False,
                       index = toString nodeIndex, proportionOfParent = proportion,
                       parent = par, isLeaf = False, spotPrices = sps, decimals = dec\<rparr>
                in if str_includes (poolType p) ''Linear'' then
                     (createLinearNodeChildren h1 poolNode (nodeIndex + 1) p wrapMainTokens, [addr])
                   else
                     (case expandTokens R fuel h1 p tokenTotal poolNode proportion
                             wrapMainTokens (tokens p) (nodeIndex + 1) of
                        (Inl e, lookups) \<Rightarrow> (Inl e, addr # lookups)
                      | (Inr (h2, nodeIndex'), lookups) \<Rightarrow>
                          (Inr (h2, poolNode, nodeIndex'), addr # lookups)))
           | _ \<Rightarrow> (Inl UNSUPPORTED_POOL_TYPE, [addr])))"
| "expandTokens R fuel h p tokenTotal poolNode proportionOfParent' wrapMainTokens [] nodeIndex =
     (Inr (h, nodeIndex), [])"
| "expandTokens R fuel h p tokenTotal poolNode proportionOfParent' wrapMainTokens (t # ts) nodeIndex =
     (if token_address t = pool_address p then
        expandTokens R fuel h p tokenTotal poolNode proportionOfParent' wrapMainTokens ts nodeIndex
      else
        (case bn_div (token_balance t * WeiPerEther) tokenTotal of
           Inl e \<Rightarrow> (Inl e, [])
         | Inr proportion \<Rightarrow>
            (case bn_div (proportion * proportionOfParent') WeiPerEther of
               Inl e \<Rightarrow> (Inl e, [])
             | Inr finalProportion \<Rightarrow>
                (case buildGraphFromPool R fuel h (token_address t) nodeIndex (Some poolNode)
                        finalProportion wrapMainTokens of
                   (Inl e, lookups) \<Rightarrow> (Inl e, lookups)
                 | (Inr (h1, childNode, nodeIndex'), lookups) \<Rightarrow>
                    (case expandTokens R fuel (push_child h1 poolNode childNode) p tokenTotal
                            poolNode proportionOfParent' wrapMainTokens ts nodeIndex' of
                       (res, lookups') \<Rightarrow> (res, lookups @ lookups'))))))"

text \<open>The result of the two functions, the lookups left out.\<close>

abbreviation buildGraphFromPool_result ::
  "repo \<Rightarrow> nat \<Rightarrow> heap \<Rightarrow> string \<Rightarrow> int \<Rightarrow> ref option \<Rightarrow> int \<Rightarrow> bool
     \<Rightarrow> error + (heap \<times> ref \<times> int)" where
  "buildGraphFromPool_result R fuel h addr nodeIndex par proportion wrapMainTokens \<equiv>
     fst (buildGraphFromPool R fuel h addr nodeIndex par proportion wrapMainTokens)"

abbreviation expandTokens_result ::
  "repo \<Rightarrow> nat \<Rightarrow> heap \<Rightarrow> pool \<Rightarrow> int \<Rightarrow> ref \<Rightarrow> int \<Rightarrow> bool \<Rightarrow> token list \<Rightarrow> int
     \<Rightarrow> error + (heap \<times> int)" where
  "expandTokens_result R fuel h p tokenTotal poolNode proportionOfParent' wrapMainTokens ts nodeIndex \<equiv>
     fst (expandTokens R fuel h p tokenTotal poolNode proportionOfParent' wrapMainTokens ts nodeIndex)"

text \<open>
  \<^verbatim>\<open>buildGraphFromRootPool\<close> returns the root node; the model returns the store with
  it, and keeps the result only.
\<close>

definition buildGraphFromRootPool ::
  "repo \<Rightarrow> nat \<Rightarrow> string \<Rightarrow> bool \<Rightarrow> error + (heap \<times> ref)" where
  "buildGraphFromRootPool R fuel poolId wrapMainTokens =
     (case pools_find R poolId of
        None \<Rightarrow> Inl POOL_DOESNT_EXIST
      | Some rootPool \<Rightarrow>
         (case buildGraphFromPool_result R fuel [] (pool_address rootPool) 0 None WeiPerEther
                 wrapMainTokens of
            Inl e \<Rightarrow> Inl e
          | Inr (h, rootNode, nodeIndex) \<Rightarrow> Inr (h, rootNode)))"

section \<open>Breadth-first order\<close>

text \<open>
  The body of \<^verbatim>\<open>children.forEach\<close> in \<^verbatim>\<open>orderByBfs\<close>: a child that is not marked
  is marked and pushed on the queue \<open>nodes\<close>.
\<close>

fun visitChildren :: "heap \<Rightarrow> ref list \<Rightarrow> ref list \<Rightarrow> heap \<times> ref list" where
  "visitChildren h nodes [] = (h, nodes)"
| "visitChildren h nodes (c # cs) =
     (if \<not> marked (h ! c) then
        visitChildren (h[c := (h ! c)\<lparr>marked := True\<rparr>]) (nodes @ [c]) cs
      else visitChildren h nodes cs)"

text \<open>The \<^verbatim>\<open>while (nodes.length > 0)\<close> loop; \<open>None\<close> stands for a loop that does not end.\<close>

partial_function (option) bfs_loop ::
  "heap \<Rightarrow> ref list \<Rightarrow> ref list \<Rightarrow> (heap \<times> ref list) option" where
  "bfs_loop h nodes orderedNodes =
     (case nodes of
        [] \<Rightarrow> Some (h, orderedNodes)
      | currentNode # rest \<Rightarrow>
         (case visitChildren h rest (children (h ! currentNode)) of
            (h', nodes') \<Rightarrow> bfs_loop h' nodes' (orderedNodes @ [currentNode])))"

declare bfs_loop.simps [code]

definition orderByBfs :: "heap \<Rightarrow> ref \<Rightarrow> (heap \<times> ref list) option" where
  "orderByBfs h root = bfs_loop (h[root := (h ! root)\<lparr>marked := True\<rparr>]) [root] []"

section \<open>The path from a token to the root\<close>

text \<open>The callback of \<^verbatim>\<open>map\<close> in \<^verbatim>\<open>getNodesToRoot\<close>: it assigns to the node it is given.\<close>

definition zeroIndex :: "heap \<Rightarrow> ref list \<Rightarrow> heap" where
  "zeroIndex h ns = fold (\<lambda>n h'. h'[n := (h' ! n)\<lparr>index := ''0''\<rparr>]) ns h"

text \<open>
  The loop \<^verbatim>\<open>while (parentNode !== undefined)\<close>. The spread \<^verbatim>\<open>{ ...parentNode }\<close> is a
  new object with the fields of the old one.
\<close>

partial_function (option) walkToRoot ::
  "heap \<Rightarrow> int \<Rightarrow> int \<Rightarrow> ref list \<Rightarrow> ref option \<Rightarrow> (heap \<times> ref list) option" where
  "walkToRoot h startingIndex idx nodesToRoot parentNode =
     (case parentNode of
        None \<Rightarrow> Some (h, nodesToRoot)
      | Some pn \<Rightarrow>
         (case alloc h ((h ! pn)\<lparr>proportionOfParent := 0, index := toString idx\<rparr>) of
            (h1, nd) \<Rightarrow>
              (let h3 =
                     (if idx - 1 = startingIndex then
                        (let childrenWithoutRoot =
                               filter (\<lambda>c. toLowerCase (address (h1 ! c)) \<noteq>
                                            toLowerCase (address (h1 ! (nodesToRoot ! 0))))
                                      (children (h1 ! nd));
                             h2 = zeroIndex h1 childrenWithoutRoot
                         in h2[nd := (h2 ! nd)\<lparr>children := childrenWithoutRoot @ [nodesToRoot ! 0]\<rparr>])
                      else h1)
               in walkToRoot h3 startingIndex (idx + 1) (nodesToRoot @ [nd]) (parent (h3 ! pn)))))"

declare walkToRoot.simps [code]

text \<open>
  \<^verbatim>\<open>getNodesToRoot\<close>. The outer \<open>option\<close> is the loop's; inside, \<open>Inl\<close> is a thrown
  error and \<open>Inr\<close> the store after the call with the returned array.
\<close>

definition getNodesToRoot ::
  "heap \<Rightarrow> ref list \<Rightarrow> string \<Rightarrow> int \<Rightarrow> (error + heap \<times> ref list) option" where
  "getNodesToRoot h orderedNodes inputToken startingIndex =
     (case at orderedNodes (int (length orderedNodes) - 1) of
        None \<Rightarrow> Some (Inl TypeError)
      | Some lastNode \<Rightarrow>
         if toLowerCase inputToken = toLowerCase (address (h ! lastNode))
         then Some (Inl INPUT_TOKEN_INVALID)
         else
           (case find (\<lambda>n. toLowerCase (address (h ! n)) = toLowerCase inputToken) orderedNodes of
              None \<Rightarrow> Some (Inl INPUT_TOKEN_INVALID)
            | Some inputNode \<Rightarrow>
               (let (h1, firstNode) =
                      (if joinAction (h ! inputNode) \<noteq> J_input then
                         (let (h', inputTokenNode, nodeIndex') =
                                createInputTokenNode h startingIndex inputToken
                                  (decimals (h ! inputNode)) (parent (h ! inputNode)) WeiPerEther
                          in (h', inputTokenNode))
                       else
                         (let (h', inputTokenNode) =
                                alloc h ((h ! inputNode)\<lparr>proportionOfParent := WeiPerEther,
                                                         index := ''0''\<rparr>)
                          in (h', inputNode)))
                in map_option Inr
                     (walkToRoot h1 startingIndex (startingIndex + 1) [firstNode]
                        (parent (h1 ! inputNode))))))"

definition getLeafAddresses :: "heap \<Rightarrow> ref list \<Rightarrow> string list" where
  "getLeafAddresses h nodes = map (\<lambda>n. address (h ! n)) (filter (\<lambda>n. isLeaf (h ! n)) nodes)"

section \<open>Example pools\<close>

text \<open>
  A weighted pool of two plain tokens with balances 1 and 3, the tree built for it
  (\<open>H1\<close>), the store after \<^verbatim>\<open>orderByBfs\<close> (\<open>H1_marked\<close>), and the stores after two
  calls of \<^verbatim>\<open>getNodesToRoot\<close>.
\<close>


definition P1 :: pool where
  "P1 = \<lparr>pool_address = ''0xP1'', pool_id = ''id1'', poolType = ''Weighted'',
     tokens = [\<lparr>token_address = ''0xa'', token_decimals = Some 18, token_balance = 1\<rparr>,
               \<lparr>token_address = ''0xb'', token_decimals = Some 6, token_balance = 3\<rparr>],
     tokensList = [''0xa'', ''0xb''], mainIndex = None, wrappedIndex = None\<rparr>"

definition R1 :: repo where
  "R1 = \<lparr>pools_find = map_of [(''id1'', P1)], pools_findBy = map_of [(''0xP1'', P1)],
          calcSpotPrice = (\<lambda>p a b. ''1'')\<rparr>"

definition H1 :: heap where
  "H1 = [\<lparr>address = ''0xP1'', node_id = ''id1'', joinAction = J_joinPool, exitAction = E_exitPool,
          node_type = ''Weighted'', children = [1, 2], marked = False, index = ''0'',
          proportionOfParent = 1000000000000000000, parent = None, isLeaf = False,
          spotPrices = [(''0xa'', ''1''), (''0xb'', ''1'')], decimals = 18\<rparr>,
         \<lparr>address = ''0xa'', node_id = ''N/A'', joinAction = J_input, exitAction = E_output,
          node_type = ''Input'', children = [], marked = False, index = ''1'',
          proportionOfParent = 250000000000000000, parent = Some 0, isLeaf = True,
          spotPrices = [], decimals = 18\<rparr>,
         \<lparr>address = ''0xb'', node_id = ''N/A'', joinAction = J_input, exitAction = E_output,
          node_type = ''Input'', children = [], marked = False, index = ''2'',
          proportionOfParent = 750000000000000000, parent = Some 0, isLeaf = True,
          spotPrices = [], decimals = 6\<rparr>]"

definition H1_marked :: heap where
  "H1_marked = map (\<lambda>n. n\<lparr>marked := True\<rparr>) H1"

definition H1_leaf_path :: heap where
  "H1_leaf_path =
     H1_marked[2 := (H1_marked ! 2)\<lparr>index := ''0''\<rparr>] @
     [(H1_marked ! 1)\<lparr>proportionOfParent := WeiPerEther, index := ''0''\<rparr>,
      (H1_marked ! 0)\<lparr>proportionOfParent := 0, index := ''1'', children := [2, 1]\<rparr>]"

definition H1_root_path :: heap where
  "H1_root_path =
     H1_marked @
     [\<lparr>address = ''0xP1'', node_id = ''N/A'', joinAction = J_input, exitAction = E_output,
       node_type = ''Input'', children = [], marked = False, index = ''0'',
       proportionOfParent = WeiPerEther, parent = None, isLeaf = True,
       spotPrices = [], decimals = 18\<rparr>]"


text \<open>A pool of a category that is in neither action table.\<close>

definition PG :: pool where
  "PG = \<lparr>pool_address = ''0xG'', pool_id = ''idG'', poolType = ''Gyro2'',
     tokens = [\<lparr>token_address = ''0xa'', token_decimals = Some 18, token_balance = 1\<rparr>],
     tokensList = [''0xa''], mainIndex = None, wrappedIndex = None\<rparr>"

definition R2 :: repo where
  "R2 = \<lparr>pools_find = map_of [(''idG'', PG)], pools_findBy = map_of [(''0xG'', PG)],
          calcSpotPrice = (\<lambda>p a b. ''1'')\<rparr>"

text \<open>
  A store that is not a tree: nodes 1 and 2 both have node 3 in their \<open>children\<close>.
\<close>

definition H_shared :: heap where
  "H_shared =
     [\<lparr>address = ''0xP'', node_id = ''idP'', joinAction = J_joinPool, exitAction = E_exitPool,
       node_type = ''Weighted'', children = [1, 2], marked = False, index = ''0'',
       proportionOfParent = WeiPerEther, parent = None, isLeaf = False,
       spotPrices = [], decimals = 18\<rparr>,
      \<lparr>address = ''0xQ'', node_id = ''idQ'', joinAction = J_joinPool, exitAction = E_exitPool,
       node_type = ''Weighted'', children = [3], marked = False, index = ''1'',
       proportionOfParent = 0, parent = Some 0, isLeaf = False,
       spotPrices = [], decimals = 18\<rparr>,
      \<lparr>address = ''0xR'', node_id = ''idR'', joinAction = J_joinPool, exitAction = E_exitPool,
       node_type = ''Weighted'', children = [3], marked = False, index = ''2'',
       proportionOfParent = 0, parent = Some 0, isLeaf = False,
       spotPrices = [], decimals = 18\<rparr>,
      \<lparr>address = ''0xa'', node_id = ''N/A'', joinAction = J_input, exitAction = E_output,
       node_type = ''Input'', children = [], marked = False, index = ''3'',
       proportionOfParent = 0, parent = Some 1, isLeaf = True,
       spotPrices = [], decimals = 18\<rparr>]"

text \<open>
  A repository that files a pool under an address spelled differently from the address
  in the record it returns: looked up by \<open>0xP3\<close>, the record says \<open>0xp3\<close>, and
  nothing is filed under \<open>0xp3\<close>.
\<close>

definition P3 :: pool where
  "P3 = \<lparr>pool_address = ''0xP3'', pool_id = ''id3'', poolType = ''Weighted'',
     tokens = [\<lparr>token_address = ''0xa'', token_decimals = Some 18, token_balance = 1\<rparr>],
     tokensList = [''0xa''], mainIndex = None, wrappedIndex = None\<rparr>"

definition R3 :: repo where
  "R3 = \<lparr>pools_find = map_of [(''id3'', P3)],
          pools_findBy = map_of [(''0xP3'', P3\<lparr>pool_address := ''0xp3''\<rparr>)],
          calcSpotPrice = (\<lambda>p a b. ''1'')\<rparr>"



text \<open>A repository in which the id of a pool has a record and its address has none.\<close>

definition R4 :: repo where
  "R4 = \<lparr>pools_find = map_of [(''id1'', P1)], pools_findBy = map_of [],
          calcSpotPrice = (\<lambda>p a b. ''1'')\<rparr>"




definition P6 :: pool where
  "P6 = \<lparr>pool_address = ''0xP6'', pool_id = ''id6'', poolType = ''Weighted'',
     tokens = [\<lparr>token_address = ''0xP6'', token_decimals = Some 18, token_balance = 7\<rparr>,
               \<lparr>token_address = ''0xa'', token_decimals = Some 18, token_balance = 1\<rparr>,
               \<lparr>token_address = ''0xb'', token_decimals = Some 18, token_balance = 2\<rparr>],
     tokensList = [''0xa'', ''0xP6'', ''0xb''], mainIndex = None, wrappedIndex = None\<rparr>"

definition R6 :: repo where
  "R6 = \<lparr>pools_find = map_of [(''id6'', P6)], pools_findBy = map_of [(''0xP6'', P6)],
          calcSpotPrice = (\<lambda>p a b. ''1'')\<rparr>"

definition H6 :: heap where
  "H6 = [\<lparr>address = ''0xP6'', node_id = ''id6'', joinAction = J_joinPool, exitAction = E_exitPool,
          node_type = ''Weighted'', children = [1, 2], marked = False, index = ''0'',
          proportionOfParent = 1000000000000000000, parent = None, isLeaf = False,
          spotPrices = [(''0xa'', ''1''), (''0xb'', ''1'')], decimals = 18\<rparr>,
         \<lparr>address = ''0xa'', node_id = ''N/A'', joinAction = J_input, exitAction = E_output,
          node_type = ''Input'', children = [], marked = False, index = ''1'',
          proportionOfParent = 111111111111111111, parent = Some 0, isLeaf = True,
          spotPrices = [], decimals = 18\<rparr>,
         \<lparr>address = ''0xb'', node_id = ''N/A'', joinAction = J_input, exitAction = E_output,
          node_type = ''Input'', children = [], marked = False, index = ''2'',
          proportionOfParent = 222222222222222222, parent = Some 0, isLeaf = True,
          spotPrices = [], decimals = 18\<rparr>]"

text \<open>A pool that holds its own token only, and the tree built for it.\<close>

definition P7 :: pool where
  "P7 = \<lparr>pool_address = ''0xP7'', pool_id = ''id7'', poolType = ''Weighted'',
     tokens = [\<lparr>token_address = ''0xP7'', token_decimals = Some 18, token_balance = 7\<rparr>],
     tokensList = [''0xP7''], mainIndex = None, wrappedIndex = None\<rparr>"

definition R7 :: repo where
  "R7 = \<lparr>pools_find = map_of [(''id7'', P7)], pools_findBy = map_of [(''0xP7'', P7)],
          calcSpotPrice = (\<lambda>p a b. ''1'')\<rparr>"

definition H7 :: heap where
  "H7 = [\<lparr>address = ''0xP7'', node_id = ''id7'', joinAction = J_joinPool, exitAction = E_exitPool,
          node_type = ''Weighted'', children = [], marked = False, index = ''0'',
          proportionOfParent = 1000000000000000000, parent = None, isLeaf = False,
          spotPrices = [], decimals = 18\<rparr>]"

text \<open>
  A pool of two plain tokens with balances 1 and 2, and the tree built for it under a
  proportion of \<open>10^36\<close>.
\<close>

definition P8 :: pool where
  "P8 = \<lparr>pool_address = ''0xP8'', pool_id = ''id8'', poolType = ''Weighted'',
     tokens = [\<lparr>token_address = ''0xa'', token_decimals = Some 18, token_balance = 1\<rparr>,
               \<lparr>token_address = ''0xb'', token_decimals = Some 18, token_balance = 2\<rparr>],
     tokensList = [''0xa'', ''0xb''], mainIndex = None, wrappedIndex = None\<rparr>"

definition R8 :: repo where
  "R8 = \<lparr>pools_find = map_of [(''id8'', P8)], pools_findBy = map_of [(''0xP8'', P8)],
          calcSpotPrice = (\<lambda>p a b. ''1'')\<rparr>"

definition H8 :: heap where
  "H8 = [\<lparr>address = ''0xP8'', node_id = ''id8'', joinAction = J_joinPool, exitAction = E_exitPool,
          node_type = ''Weighted'', children = [1, 2], marked = False, index = ''0'',
          proportionOfParent = 1000000000000000000000000000000000000, parent = None,
          isLeaf = False, spotPrices = [(''0xa'', ''1''), (''0xb'', ''1'')], decimals = 18\<rparr>,
         \<lparr>address = ''0xa'', node_id = ''N/A'', joinAction = J_input, exitAction = E_output,
          node_type = ''Input'', children = [], marked = False, index = ''1'',
          proportionOfParent = 333333333333333333000000000000000000, parent = Some 0,
          isLeaf = True, spotPrices = [], decimals = 18\<rparr>,
         \<lparr>address = ''0xb'', node_id = ''N/A'', joinAction = J_input, exitAction = E_output,
          node_type = ''Input'', children = [], marked = False, index = ''2'',
          proportionOfParent = 666666666666666666000000000000000000, parent = Some 0,
          isLeaf = True, spotPrices = [], decimals = 18\<rparr>]"

text \<open>
  A pool that lists its own token twice, with balances 7 and 5, next to a plain token
  with balance 1, and the tree built for it.
\<close>

definition P9 :: pool where
  "P9 = \<lparr>pool_address = ''0xP9'', pool_id = ''id9'', poolType = ''Weighted'',
     tokens = [\<lparr>token_address = ''0xP9'', token_decimals = Some 18, token_balance = 7\<rparr>,
               \<lparr>token_address = ''0xP9'', token_decimals = Some 18, token_balance = 5\<rparr>,
               \<lparr>token_address = ''0xa'', token_decimals = Some 18, token_balance = 1\<rparr>],
     tokensList = [''0xP9'', ''0xP9'', ''0xa''], mainIndex = None, wrappedIndex = None\<rparr>"

definition R9 :: repo where
  "R9 = \<lparr>pools_find = map_of [(''id9'', P9)], pools_findBy = map_of [(''0xP9'', P9)],
          calcSpotPrice = (\<lambda>p a b. ''1'')\<rparr>"

definition H9 :: heap where
  "H9 = [\<lparr>address = ''0xP9'', node_id = ''id9'', joinAction = J_joinPool, exitAction = E_exitPool,
          node_type = ''Weighted'', children = [1], marked = False, index = ''0'',
          proportionOfParent = 1000000000000000000, parent = None, isLeaf = False,
          spotPrices = [(''0xa'', ''1'')], decimals = 18\<rparr>,
         \<lparr>address = ''0xa'', node_id = ''N/A'', joinAction = J_input, exitAction = E_output,
          node_type = ''Input'', children = [], marked = False, index = ''1'',
          proportionOfParent = 166666666666666666, parent = Some 0, isLeaf = True,
          spotPrices = [], decimals = 18\<rparr>]"

section \<open>Well-formed stores and the order of the traversal\<close>

text \<open>
  A reference of a JavaScript object always points to an object. In the model a store is
  well formed when every reference in a \<open>children\<close> field points inside the store.
\<close>

definition heap_ok :: "heap \<Rightarrow> bool" where
  "heap_ok h \<longleftrightarrow> (\<forall>r < length h. \<forall>c \<in> set (children (h ! r)). c < length h)"

text \<open>The nodes that can be reached from a node through the \<open>children\<close> fields.\<close>

inductive_set reach :: "heap \<Rightarrow> ref \<Rightarrow> ref set" for h :: heap and root :: ref where
  reach_root: "root \<in> reach h root"
| reach_child: "r \<in> reach h root \<Longrightarrow> c \<in> set (children (h ! r)) \<Longrightarrow> c \<in> reach h root"

code_pred reachp .

text \<open>
  The invariant of the loop of \<^verbatim>\<open>orderByBfs\<close> started on the store \<open>g\<close>: only the
  \<open>marked\<close> flags differ from \<open>g\<close>, the flag is set exactly on the nodes dequeued or
  queued so far (and where it was set in \<open>g\<close>), no node is dequeued or queued twice, the
  children of a dequeued node are all marked, and every node seen is the root or the
  child of a dequeued node.
\<close>

definition bfs_inv :: "heap \<Rightarrow> ref \<Rightarrow> heap \<Rightarrow> ref list \<Rightarrow> ref list \<Rightarrow> bool" where
  "bfs_inv g root h q out \<longleftrightarrow>
     length h = length g \<and>
     (\<forall>r < length g. h ! r = (g ! r)\<lparr>marked := marked (g ! r) \<or> r \<in> set (out @ q)\<rparr>) \<and>
     distinct (out @ q) \<and>
     (\<forall>r \<in> set (out @ q). r < length g) \<and>
     (\<forall>x \<in> set out. \<forall>c \<in> set (children (g ! x)). marked (g ! c) \<or> c \<in> set (out @ q)) \<and>
     set (out @ q) \<subseteq> reach g root \<and>
     (\<forall>r \<in> set (out @ q). r = root \<or> (\<exists>p \<in> set out. r \<in> set (children (g ! p))))"

text \<open>
  The order level by level: a level, followed by the children of its nodes, in the
  order of the nodes and of their \<open>children\<close> arrays, as the next level.
\<close>

inductive bfs_levels :: "heap \<Rightarrow> ref list \<Rightarrow> ref list \<Rightarrow> bool" for h :: heap where
  no_level: "bfs_levels h [] []"
| next_level: "level \<noteq> [] \<Longrightarrow>
     bfs_levels h (concat (map (\<lambda>r. children (h ! r)) level)) rest \<Longrightarrow>
     bfs_levels h level (level @ rest)"

code_pred bfs_levels .

text \<open>
  A store that holds a freshly built tree: no node is marked, the root has no parent,
  a node occurs once in the \<open>children\<close> of its parent and its \<open>parent\<close> field points
  back to it.
\<close>

definition tree_ok :: "heap \<Rightarrow> ref \<Rightarrow> bool" where
  "tree_ok g root \<longleftrightarrow>
     heap_ok g \<and> root < length g \<and> parent (g ! root) = None \<and>
     (\<forall>r < length g. \<not> marked (g ! r) \<and> distinct (children (g ! r)) \<and>
        (\<forall>c \<in> set (children (g ! r)). parent (g ! c) = Some r))"

text \<open>
  What the build establishes for a node: it is not marked, its children are distinct
  references into the store, and each of them names the node as its parent.
\<close>

definition node_ok :: "heap \<Rightarrow> ref \<Rightarrow> bool" where
  "node_ok h i \<longleftrightarrow>
     \<not> marked (h ! i) \<and> distinct (children (h ! i)) \<and>
     (\<forall>c \<in> set (children (h ! i)). c < length h \<and> parent (h ! c) = Some i)"

text \<open>
  The effect of a successful \<^verbatim>\<open>buildGraphFromPool\<close> from store \<open>h\<close> to store \<open>h'\<close>:
  the returned node is the first new object, the objects of \<open>h\<close> are untouched, the
  node carries the parent and proportion passed in, and every new node is well formed.
\<close>

definition build_post :: "heap \<Rightarrow> ref option \<Rightarrow> int \<Rightarrow> heap \<Rightarrow> ref \<Rightarrow> bool" where
  "build_post h par P h' r \<longleftrightarrow>
     r = length h \<and> length h < length h' \<and> (\<forall>i < length h. h' ! i = h ! i) \<and>
     parent (h' ! r) = par \<and> proportionOfParent (h' ! r) = P \<and>
     (\<forall>i. length h \<le> i \<and> i < length h' \<longrightarrow> node_ok h' i)"

text \<open>
  The effect of the loop over the tokens on the pool node \<open>a\<close>: only \<open>a\<close> changes
  among the objects of \<open>h\<close>, by new children appended to its array, whose proportions
  are \<open>props\<close>.
\<close>

definition expand_post :: "heap \<Rightarrow> ref \<Rightarrow> int list \<Rightarrow> heap \<Rightarrow> bool" where
  "expand_post h a props h' \<longleftrightarrow>
     length h \<le> length h' \<and> (\<forall>i < length h. i \<noteq> a \<longrightarrow> h' ! i = h ! i) \<and>
     (\<exists>new. h' ! a = (h ! a)\<lparr>children := children (h ! a) @ new\<rparr> \<and>
            (\<forall>c \<in> set new. length h \<le> c) \<and>
            map (\<lambda>c. proportionOfParent (h' ! c)) new = props) \<and>
     node_ok h' a \<and> (\<forall>i. length h \<le> i \<and> i < length h' \<longrightarrow> node_ok h' i)"

text \<open>
  The proportions the loop computes for the tokens of a pool other than the pool's own
  token, with the divisions of \<^verbatim>\<open>BigNumber\<close>.
\<close>

definition finalProportions :: "pool \<Rightarrow> int \<Rightarrow> int \<Rightarrow> token list \<Rightarrow> int list" where
  "finalProportions p tokenTotal P ts =
     map (\<lambda>t. trunc_div (trunc_div (token_balance t * WeiPerEther) tokenTotal * P) WeiPerEther)
         (filter (\<lambda>t. token_address t \<noteq> pool_address p) ts)"

section \<open>The results of the build without the lookups\<close>

text \<open>
  The equations of the two functions for their results alone. The proofs about the tree
  use these; the equations with the lookups are unfolded where the lookups matter.
\<close>

lemma buildGraphFromPool_result_0 [simp]:
  "buildGraphFromPool_result R 0 h addr nodeIndex par proportion wrapMainTokens = Inl OutOfFuel"
  by simp

lemma buildGraphFromPool_result_Suc [simp]:
  "buildGraphFromPool_result R (Suc fuel) h addr nodeIndex par proportion wrapMainTokens =
     (case pools_findBy R addr of
        None \<Rightarrow>
          (case par of
             None \<Rightarrow> Inl POOL_DOESNT_EXIST
           | Some pr \<Rightarrow>
              (case pools_findBy R (address (h ! pr)) of
                 None \<Rightarrow> Inl TypeError
               | Some parentPool \<Rightarrow>
                  (case at (tokens parentPool) (indexOf (tokensList parentPool) addr) of
                     None \<Rightarrow> Inl TypeError
                   | Some t \<Rightarrow>
                      Inr (createInputTokenNode h nodeIndex addr
                             (case token_decimals t of None \<Rightarrow> 18 | Some d \<Rightarrow> d)
                             par proportion))))
      | Some p \<Rightarrow>
          (case (joinActions (poolType p), exitActions (poolType p)) of
             (Some ja, Some ea) \<Rightarrow>
               (let tokenTotal = getTokenTotal p;
                    (sps, dec) = poolTokenInfo R p (tokens p) ([], 18);
                    (h1, poolNode) = alloc h
                      \<lparr>address = pool_address p, node_id = pool_id p, joinAction = ja,
                       exitAction = ea, node_type = poolType p, children = [], marked = False,
                       index = toString nodeIndex, proportionOfParent = proportion,
                       parent = par, isLeaf = False, spotPrices = sps, decimals = dec\<rparr>
                in if str_includes (poolType p) ''Linear'' then
                     createLinearNodeChildren h1 poolNode (nodeIndex + 1) p wrapMainTokens
                   else
                     (case expandTokens_result R fuel h1 p tokenTotal poolNode proportion
                             wrapMainTokens (tokens p) (nodeIndex + 1) of
                        Inl e \<Rightarrow> Inl e
                      | Inr (h2, nodeIndex') \<Rightarrow> Inr (h2, poolNode, nodeIndex')))
           | _ \<Rightarrow> Inl UNSUPPORTED_POOL_TYPE))"
  by (simp add: Let_def split: option.splits sum.splits prod.splits)

lemma expandTokens_result_Nil [simp]:
  "expandTokens_result R fuel h p tokenTotal poolNode proportionOfParent' wrapMainTokens [] nodeIndex =
     Inr (h, nodeIndex)"
  by simp

lemma expandTokens_result_Cons [simp]:
  "expandTokens_result R fuel h p tokenTotal poolNode proportionOfParent' wrapMainTokens (t # ts) nodeIndex =
     (if token_address t = pool_address p then
        expandTokens_result R fuel h p tokenTotal poolNode proportionOfParent' wrapMainTokens ts nodeIndex
      else
        (case bn_div (token_balance t * WeiPerEther) tokenTotal of
           Inl e \<Rightarrow> Inl e
         | Inr proportion \<Rightarrow>
            (case bn_div (proportion * proportionOfParent') WeiPerEther of
               Inl e \<Rightarrow> Inl e
             | Inr finalProportion \<Rightarrow>
                (case buildGraphFromPool_result R fuel h (token_address t) nodeIndex (Some poolNode)
                        finalProportion wrapMainTokens of
                   Inl e \<Rightarrow> Inl e
                 | Inr (h1, childNode, nodeIndex') \<Rightarrow>
                    expandTokens_result R fuel (push_child h1 poolNode childNode) p tokenTotal poolNode
                      proportionOfParent' wrapMainTokens ts nodeIndex'))))"
  by (simp split: sum.splits prod.splits)

declare buildGraphFromPool.simps [simp del] expandTokens.simps [simp del]

section \<open>Unfolding the loops, and the examples evaluated\<close>

lemma bfs_loop_Nil: "bfs_loop h [] orderedNodes = Some (h, orderedNodes)"
  by (subst bfs_loop.simps) simp

lemma bfs_loop_Cons:
  "bfs_loop h (currentNode # rest) orderedNodes =
     (case visitChildren h rest (children (h ! currentNode)) of
        (h', nodes') \<Rightarrow> bfs_loop h' nodes' (orderedNodes @ [currentNode]))"
  by (subst bfs_loop.simps) simp

lemma walkToRoot_None:
  "walkToRoot h startingIndex idx nodesToRoot None = Some (h, nodesToRoot)"
  by (subst walkToRoot.simps) simp

lemma walkToRoot_Some:
  "walkToRoot h startingIndex idx nodesToRoot (Some pn) =
     (case alloc h ((h ! pn)\<lparr>proportionOfParent := 0, index := toString idx\<rparr>) of
        (h1, nd) \<Rightarrow>
          (let h3 =
                 (if idx - 1 = startingIndex then
                    (let childrenWithoutRoot =
                           filter (\<lambda>c. toLowerCase (address (h1 ! c)) \<noteq>
                                        toLowerCase (address (h1 ! (nodesToRoot ! 0))))
                                  (children (h1 ! nd));
                         h2 = zeroIndex h1 childrenWithoutRoot
                     in h2[nd := (h2 ! nd)\<lparr>children := childrenWithoutRoot @ [nodesToRoot ! 0]\<rparr>])
                  else h1)
           in walkToRoot h3 startingIndex (idx + 1) (nodesToRoot @ [nd]) (parent (h3 ! pn))))"
  by (subst walkToRoot.simps) simp

lemmas eval_defs =
  joinActions_def exitActions_def getTokenTotal_def parsedBalances_def alloc_def push_child_def
  createInputTokenNode_def bn_div_def trunc_div_def WeiPerEther_def toString_def digits.simps digit_chars_def
  at_def toLowerCase_def toLowerCaseChar_def zeroIndex_def

lemma ex1_built: "buildGraphFromRootPool R1 (Suc (Suc 0)) ''id1'' False = Inr (H1, 0)"
  by (simp add: buildGraphFromRootPool_def R1_def P1_def H1_def eval_defs)

lemma ex1_bfs: "orderByBfs H1 0 = Some (H1_marked, [0, 1, 2])"
  by (simp add: orderByBfs_def H1_def H1_marked_def bfs_loop_Nil bfs_loop_Cons)

lemma ex1_leaf_path:
  "getNodesToRoot H1_marked [2, 1, 0] ''0xa'' 0 = Some (Inr (H1_leaf_path, [1, 4]))"
  by (simp add: getNodesToRoot_def H1_leaf_path_def H1_marked_def H1_def walkToRoot_None walkToRoot_Some eval_defs)

lemma ex1_root_path:
  "getNodesToRoot H1_marked [0, 1, 2] ''0xP1'' 0 = Some (Inr (H1_root_path, [3]))"
  by (simp add: getNodesToRoot_def H1_root_path_def H1_marked_def H1_def walkToRoot_None walkToRoot_Some eval_defs)


section \<open>Unsupported pool categories\<close>

text \<open>
  The lookups of a build that succeeds, for comparison: the pool, then for every token
  the token and, as it is no pool, its parent pool.
\<close>

lemma ex1_lookups:
  "snd (buildGraphFromPool R1 (Suc (Suc 0)) [] ''0xP1'' 0 None WeiPerEther False) =
     [''0xP1'', ''0xa'', ''0xP1'', ''0xb'', ''0xP1'']"
  by (simp add: buildGraphFromPool.simps expandTokens.simps R1_def P1_def eval_defs)

text \<open>
  C8. When the address resolves to a pool whose category is missing from the join table
  or from the exit table, \<^verbatim>\<open>buildGraphFromPool\<close> stops with \<open>UNSUPPORTED_POOL_TYPE\<close>,
  and the only lookup it has issued is the one of the address itself: no token of the
  pool is looked up, so no child is expanded. It does so for every amount of fuel from
  one unit on, that is also when no recursive call could be made, and whatever the
  repository answers for any other address.
\<close>

theorem unsupported_pool_type_before_children:
  assumes "pools_findBy R addr = Some p"
    and "joinActions (poolType p) = None \<or> exitActions (poolType p) = None"
  shows "buildGraphFromPool R (Suc fuel) h addr nodeIndex par proportion wrapMainTokens =
           (Inl UNSUPPORTED_POOL_TYPE, [addr])"
  using assms by (auto simp: buildGraphFromPool.simps split: option.splits)

theorem unsupported_pool_type_before_children_witness:
  "pools_findBy R2 ''0xG'' = Some PG \<and>
   (joinActions (poolType PG) = None \<or> exitActions (poolType PG) = None) \<and>
   buildGraphFromPool R2 (Suc (Suc 0)) [] ''0xG'' 0 None WeiPerEther False =
     (Inl UNSUPPORTED_POOL_TYPE, [''0xG''])"
  using unsupported_pool_type_before_children [of R2 "''0xG''" PG "Suc 0" "[]" 0 None WeiPerEther False]
  by (simp add: R2_def PG_def joinActions_def)

section \<open>The first element of the path for a leaf token\<close>

text \<open>
  C4. The claim: when the input token matches an Input leaf, the first element of the
  returned sequence is that leaf with \<open>proportionOfParent\<close> \<open>10^18\<close> and index
  \<open>''0''\<close>. The source makes a copy of the leaf, assigns both fields on the copy, and
  then pushes the leaf itself. Evaluated on the tree of the example pool, in the order
  the function expects (root last), for the token \<open>0xa\<close>: the first element is node 1
  of the tree, still with a quarter as its proportion and index \<open>''1''\<close>; the copy
  that carries \<open>10^18\<close> and \<open>''0''\<close> is node 3 of the store and is not returned.
\<close>

theorem getNodesToRoot_leaf_first_element:
  "buildGraphFromRootPool R1 (Suc (Suc 0)) ''id1'' False = Inr (H1, 0) \<and>
   orderByBfs H1 0 = Some (H1_marked, [0, 1, 2]) \<and>
   joinAction (H1_marked ! 1) = J_input \<and> isLeaf (H1_marked ! 1) \<and>
   getNodesToRoot H1_marked (rev [0, 1, 2]) ''0xa'' 0 = Some (Inr (H1_leaf_path, [1, 4])) \<and>
   proportionOfParent (H1_leaf_path ! 1) = 250000000000000000 \<and>
   index (H1_leaf_path ! 1) = ''1'' \<and>
   proportionOfParent (H1_leaf_path ! 3) = WeiPerEther \<and>
   index (H1_leaf_path ! 3) = ''0''"
  using ex1_built ex1_bfs ex1_leaf_path
  by (simp add: H1_leaf_path_def H1_marked_def H1_def)

section \<open>What the path extraction writes to the tree\<close>

text \<open>
  C3. The claim: \<^verbatim>\<open>getNodesToRoot\<close> leaves every field of every node of the tree as it
  was. The ancestors are copied before they are changed, but the callback that sets the
  index of the other children of the first ancestor to \<open>''0''\<close> assigns to the nodes of
  the tree themselves. On the example, node 2 (the token \<open>0xb\<close>) has index \<open>''2''\<close>
  before the call and \<open>''0''\<close> after it.
\<close>

theorem getNodesToRoot_writes_sibling_index:
  "buildGraphFromRootPool R1 (Suc (Suc 0)) ''id1'' False = Inr (H1, 0) \<and>
   orderByBfs H1 0 = Some (H1_marked, [0, 1, 2]) \<and>
   getNodesToRoot H1_marked (rev [0, 1, 2]) ''0xa'' 0 = Some (Inr (H1_leaf_path, [1, 4])) \<and>
   index (H1_marked ! 2) = ''2'' \<and> index (H1_leaf_path ! 2) = ''0''"
  using ex1_built ex1_bfs ex1_leaf_path
  by (simp add: H1_leaf_path_def H1_marked_def H1_def)

section \<open>The traversal visits every node once, level by level\<close>

lemma visitChildren_spec:
  assumes "\<forall>c \<in> set cs. c < length h"
  shows "\<exists>h' new. visitChildren h nodes cs = (h', nodes @ new) \<and> length h' = length h \<and>
           distinct new \<and> set new = {c \<in> set cs. \<not> marked (h ! c)} \<and>
           (\<forall>r < length h. h' ! r = (h ! r)\<lparr>marked := marked (h ! r) \<or> r \<in> set new\<rparr>) \<and>
           (distinct cs \<and> (\<forall>c \<in> set cs. \<not> marked (h ! c)) \<longrightarrow> new = cs)"
  using assms
proof (induction cs arbitrary: h nodes)
  case Nil
  then show ?case by simp
next
  case (Cons c cs)
  show ?case
  proof (cases "marked (h ! c)")
    case True
    from Cons.prems have "\<forall>c \<in> set cs. c < length h" by simp
    from Cons.IH [OF this, of nodes] obtain h' new where
      *: "visitChildren h nodes cs = (h', nodes @ new)" "length h' = length h" "distinct new"
         "set new = {c \<in> set cs. \<not> marked (h ! c)}"
         "\<forall>r < length h. h' ! r = (h ! r)\<lparr>marked := marked (h ! r) \<or> r \<in> set new\<rparr>"
      by blast
    with True show ?thesis by auto
  next
    case False
    let ?h1 = "h[c := (h ! c)\<lparr>marked := True\<rparr>]"
    from Cons.prems have c: "c < length h" and cs: "\<forall>c \<in> set cs. c < length ?h1" by simp_all
    from Cons.IH [OF cs, of "nodes @ [c]"] obtain h' new where
      *: "visitChildren ?h1 (nodes @ [c]) cs = (h', (nodes @ [c]) @ new)" "length h' = length ?h1"
         "distinct new" "set new = {c' \<in> set cs. \<not> marked (?h1 ! c')}"
         "\<forall>r < length ?h1. h' ! r = (?h1 ! r)\<lparr>marked := marked (?h1 ! r) \<or> r \<in> set new\<rparr>"
         "distinct cs \<and> (\<forall>c' \<in> set cs. \<not> marked (?h1 ! c')) \<longrightarrow> new = cs"
      by blast
    have m1: "\<And>c'. c' < length h \<Longrightarrow> marked (?h1 ! c') = (c' = c \<or> marked (h ! c'))"
      using c by (auto simp: nth_list_update)
    have setnew: "set new = {c' \<in> set cs. c' \<noteq> c \<and> \<not> marked (h ! c')}"
      using *(4) Cons.prems m1 by auto
    have "visitChildren h nodes (c # cs) = (h', nodes @ (c # new))"
      using False *(1) by simp
    moreover have "length h' = length h" using *(2) by simp
    moreover have "distinct (c # new)" using *(3) setnew by auto
    moreover have "set (c # new) = {c' \<in> set (c # cs). \<not> marked (h ! c')}"
      using setnew False by auto
    moreover have "\<forall>r < length h. h' ! r = (h ! r)\<lparr>marked := marked (h ! r) \<or> r \<in> set (c # new)\<rparr>"
    proof (intro allI impI)
      fix r assume r: "r < length h"
      then have "h' ! r = (?h1 ! r)\<lparr>marked := marked (?h1 ! r) \<or> r \<in> set new\<rparr>"
        using *(5) by simp
      then show "h' ! r = (h ! r)\<lparr>marked := marked (h ! r) \<or> r \<in> set (c # new)\<rparr>"
        using r by (cases "r = c") (auto simp: nth_list_update)
    qed
    moreover have "distinct (c # cs) \<and> (\<forall>c' \<in> set (c # cs). \<not> marked (h ! c')) \<longrightarrow> c # new = c # cs"
      using *(6) m1 Cons.prems by auto
    ultimately show ?thesis by blast
  qed
qed


lemma bfs_inv_step:
  assumes ok: "heap_ok g" and inv: "bfs_inv g root h (x # rest) out"
  shows "\<exists>h1 new. visitChildren h rest (children (h ! x)) = (h1, rest @ new) \<and>
           bfs_inv g root h1 (rest @ new) (out @ [x]) \<and>
           (distinct (children (g ! x)) \<and>
            (\<forall>c \<in> set (children (g ! x)). \<not> marked (g ! c) \<and> c \<notin> set (out @ x # rest))
              \<longrightarrow> new = children (g ! x))"
proof -
  from inv have len: "length h = length g"
    and frame: "\<And>r. r < length g \<Longrightarrow>
                  h ! r = (g ! r)\<lparr>marked := marked (g ! r) \<or> r \<in> set (out @ x # rest)\<rparr>"
    and dist: "distinct (out @ x # rest)"
    and valid: "\<And>r. r \<in> set (out @ x # rest) \<Longrightarrow> r < length g"
    and closed: "\<And>y c. y \<in> set out \<Longrightarrow> c \<in> set (children (g ! y)) \<Longrightarrow>
                   marked (g ! c) \<or> c \<in> set (out @ x # rest)"
    and sub: "set (out @ x # rest) \<subseteq> reach g root"
    and par: "\<And>r. r \<in> set (out @ x # rest) \<Longrightarrow>
                r = root \<or> (\<exists>p \<in> set out. r \<in> set (children (g ! p)))"
    unfolding bfs_inv_def by blast+
  have x: "x < length g" using valid by simp
  have kids: "children (h ! x) = children (g ! x)" using frame [OF x] by simp
  have kvalid: "\<And>c. c \<in> set (children (g ! x)) \<Longrightarrow> c < length g"
    using ok x unfolding heap_ok_def by blast
  have mk: "\<And>r. r < length g \<Longrightarrow> marked (h ! r) = (marked (g ! r) \<or> r \<in> set (out @ x # rest))"
    using frame by simp
  have "\<forall>c \<in> set (children (g ! x)). c < length h" using kvalid len by simp
  from visitChildren_spec [OF this, of rest] obtain h1 new where
    v: "visitChildren h rest (children (g ! x)) = (h1, rest @ new)"
    and len1: "length h1 = length h" and dnew: "distinct new"
    and snew: "set new = {c \<in> set (children (g ! x)). \<not> marked (h ! c)}"
    and f1: "\<forall>r < length h. h1 ! r = (h ! r)\<lparr>marked := marked (h ! r) \<or> r \<in> set new\<rparr>"
    and all: "distinct (children (g ! x)) \<and> (\<forall>c \<in> set (children (g ! x)). \<not> marked (h ! c))
                \<longrightarrow> new = children (g ! x)"
    by blast
  have snew': "set new = {c \<in> set (children (g ! x)). \<not> marked (g ! c) \<and> c \<notin> set (out @ x # rest)}"
    using snew mk kvalid by auto
  have i1: "length h1 = length g" using len len1 by simp
  have i2: "\<forall>r < length g. h1 ! r =
              (g ! r)\<lparr>marked := marked (g ! r) \<or> r \<in> set ((out @ [x]) @ rest @ new)\<rparr>"
  proof (intro allI impI)
    fix r assume r: "r < length g"
    have "h1 ! r = (h ! r)\<lparr>marked := marked (h ! r) \<or> r \<in> set new\<rparr>"
      using f1 r len by simp
    also have "\<dots> = (g ! r)\<lparr>marked := (marked (g ! r) \<or> r \<in> set (out @ x # rest)) \<or> r \<in> set new\<rparr>"
      using frame [OF r] by simp
    also have "\<dots> = (g ! r)\<lparr>marked := marked (g ! r) \<or> r \<in> set ((out @ [x]) @ rest @ new)\<rparr>"
      by (rule arg_cong [where f = "\<lambda>b. (g ! r)\<lparr>marked := b\<rparr>"]) auto
    finally show "h1 ! r = (g ! r)\<lparr>marked := marked (g ! r) \<or> r \<in> set ((out @ [x]) @ rest @ new)\<rparr>" .
  qed
  have i3: "distinct ((out @ [x]) @ rest @ new)"
    using dist dnew snew' by auto
  have i4: "\<forall>r \<in> set ((out @ [x]) @ rest @ new). r < length g"
    using valid snew' kvalid by auto
  have i5: "\<forall>y \<in> set (out @ [x]). \<forall>c \<in> set (children (g ! y)).
              marked (g ! c) \<or> c \<in> set ((out @ [x]) @ rest @ new)"
  proof (intro ballI)
    fix y c assume y: "y \<in> set (out @ [x])" and c: "c \<in> set (children (g ! y))"
    show "marked (g ! c) \<or> c \<in> set ((out @ [x]) @ rest @ new)"
    proof (cases "y = x")
      case True
      then show ?thesis using c snew' by auto
    next
      case False
      then have "y \<in> set out" using y by simp
      from closed [OF this c] show ?thesis by auto
    qed
  qed
  have xr: "x \<in> reach g root" using sub by simp
  have i6: "set ((out @ [x]) @ rest @ new) \<subseteq> reach g root"
    using sub snew' xr by (auto intro: reach.reach_child)
  have i7: "\<forall>r \<in> set ((out @ [x]) @ rest @ new).
              r = root \<or> (\<exists>p \<in> set (out @ [x]). r \<in> set (children (g ! p)))"
  proof
    fix r assume "r \<in> set ((out @ [x]) @ rest @ new)"
    then consider "r \<in> set (out @ x # rest)" | "r \<in> set new" by auto
    then show "r = root \<or> (\<exists>p \<in> set (out @ [x]). r \<in> set (children (g ! p)))"
    proof cases
      case 1
      from par [OF this] show ?thesis by auto
    next
      case 2
      then show ?thesis using snew' by auto
    qed
  qed
  have "bfs_inv g root h1 (rest @ new) (out @ [x])"
    unfolding bfs_inv_def using i1 i2 i3 i4 i5 i6 i7 by blast
  moreover have "distinct (children (g ! x)) \<and>
            (\<forall>c \<in> set (children (g ! x)). \<not> marked (g ! c) \<and> c \<notin> set (out @ x # rest))
              \<longrightarrow> new = children (g ! x)"
    using all mk kvalid by auto
  ultimately show ?thesis using v kids by auto
qed


lemma distinct_bounded_length:
  assumes "distinct zs" and "\<forall>z \<in> set zs. z < (n::nat)"
  shows "length zs \<le> n"
proof -
  have "length zs = card (set zs)" using assms(1) by (simp add: distinct_card)
  also have "\<dots> \<le> card {..<n}" using assms(2) by (intro card_mono) auto
  finally show ?thesis by simp
qed

lemma bfs_loop_total:
  assumes ok: "heap_ok g"
  shows "bfs_inv g root h q out \<Longrightarrow>
         \<exists>h' ns. bfs_loop h q out = Some (h', ns) \<and> bfs_inv g root h' [] ns \<and>
                 (\<exists>rest. ns = out @ q @ rest)"
proof (induction "length g - length out" arbitrary: h q out rule: less_induct)
  case less
  show ?case
  proof (cases q)
    case Nil
    with less.prems show ?thesis by (simp add: bfs_loop_Nil)
  next
    case (Cons x rest)
    from bfs_inv_step [OF ok less.prems [unfolded Cons]] obtain h1 new where
      v: "visitChildren h rest (children (h ! x)) = (h1, rest @ new)"
      and inv1: "bfs_inv g root h1 (rest @ new) (out @ [x])"
      by blast
    from less.prems Cons have "distinct (out @ x # rest)" "\<forall>z \<in> set (out @ x # rest). z < length g"
      unfolding bfs_inv_def by blast+
    from distinct_bounded_length [OF this] have "length out < length g" by simp
    then have "length g - length (out @ [x]) < length g - length out" by simp
    from less.hyps [OF this inv1] obtain h' ns rest' where
      "bfs_loop h1 (rest @ new) (out @ [x]) = Some (h', ns)" "bfs_inv g root h' [] ns"
      "ns = (out @ [x]) @ (rest @ new) @ rest'"
      by blast
    then show ?thesis using v Cons by (simp add: bfs_loop_Cons)
  qed
qed

lemma bfs_inv_init:
  assumes "root < length g"
  shows "bfs_inv g root (g[root := (g ! root)\<lparr>marked := True\<rparr>]) [root] []"
  unfolding bfs_inv_def using assms
  by (auto simp: nth_list_update intro: reach.reach_root)

lemma orderByBfs_total:
  assumes "heap_ok g" and "root < length g"
  shows "\<exists>h' ns. orderByBfs g root = Some (h', ns) \<and> bfs_inv g root h' [] ns \<and>
                 ns \<noteq> [] \<and> hd ns = root"
proof -
  from bfs_loop_total [OF assms(1) bfs_inv_init [OF assms(2)]]
  obtain h' ns rest where "bfs_loop (g[root := (g ! root)\<lparr>marked := True\<rparr>]) [root] [] = Some (h', ns)"
    "bfs_inv g root h' [] ns" "ns = [] @ [root] @ rest"
    by blast
  then show ?thesis by (simp add: orderByBfs_def)
qed

lemma reach_in_closed:
  assumes "root \<in> set ns"
    and "\<forall>x \<in> set ns. \<forall>c \<in> set (children (g ! x)). marked (g ! c) \<or> c \<in> set ns"
    and "\<forall>c \<in> reach g root. c \<noteq> root \<longrightarrow> \<not> marked (g ! c)"
    and "r \<in> reach g root"
  shows "r \<in> set ns"
  using assms(4)
proof (induction rule: reach.induct)
  case reach_root
  then show ?case using assms(1) .
next
  case (reach_child r c)
  then have "c \<in> reach g root" by (auto intro: reach.reach_child)
  with assms(1,2,3) reach_child show ?case by (cases "c = root") auto
qed

lemma tree_children_fresh:
  assumes t: "tree_ok g root" and inv: "bfs_inv g root h (x # rest) out"
    and c: "c \<in> set (children (g ! x))"
  shows "\<not> marked (g ! c) \<and> c \<notin> set (out @ x # rest)"
proof -
  from inv have dist: "distinct (out @ x # rest)"
    and valid: "\<And>r. r \<in> set (out @ x # rest) \<Longrightarrow> r < length g"
    and par: "\<And>r. r \<in> set (out @ x # rest) \<Longrightarrow>
                r = root \<or> (\<exists>p \<in> set out. r \<in> set (children (g ! p)))"
    unfolding bfs_inv_def by blast+
  have x: "x < length g" using valid by simp
  from t x c have pc: "parent (g ! c) = Some x" and clen: "c < length g"
    unfolding tree_ok_def heap_ok_def by blast+
  from t clen have "\<not> marked (g ! c)" unfolding tree_ok_def by blast
  moreover have "c \<notin> set (out @ x # rest)"
  proof
    assume "c \<in> set (out @ x # rest)"
    from par [OF this] show False
    proof
      assume "c = root"
      with t pc show False unfolding tree_ok_def by simp
    next
      assume "\<exists>p \<in> set out. c \<in> set (children (g ! p))"
      then obtain p where p: "p \<in> set out" "c \<in> set (children (g ! p))" by blast
      then have "p < length g" using valid by simp
      with t p have "parent (g ! c) = Some p" unfolding tree_ok_def by blast
      with pc have "p = x" by simp
      with p(1) dist show False by simp
    qed
  qed
  ultimately show ?thesis ..
qed

lemma bfs_loop_level:
  assumes t: "tree_ok g root"
  shows "bfs_inv g root h (xs @ ys) out \<Longrightarrow>
         \<exists>h1. bfs_loop h (xs @ ys) out =
                 bfs_loop h1 (ys @ concat (map (\<lambda>r. children (g ! r)) xs)) (out @ xs) \<and>
               bfs_inv g root h1 (ys @ concat (map (\<lambda>r. children (g ! r)) xs)) (out @ xs)"
proof (induction xs arbitrary: h ys out)
  case Nil
  then show ?case by auto
next
  case (Cons x xs)
  from t have ok: "heap_ok g" unfolding tree_ok_def by blast
  from Cons.prems have inv: "bfs_inv g root h (x # (xs @ ys)) out" by simp
  from t inv have "x < length g" unfolding bfs_inv_def by simp
  with t have dk: "distinct (children (g ! x))" unfolding tree_ok_def by blast
  from bfs_inv_step [OF ok inv] tree_children_fresh [OF t inv] dk obtain h1 where
    v: "visitChildren h (xs @ ys) (children (h ! x)) = (h1, (xs @ ys) @ children (g ! x))"
    and inv1: "bfs_inv g root h1 ((xs @ ys) @ children (g ! x)) (out @ [x])"
    by blast
  from inv1 have "bfs_inv g root h1 (xs @ (ys @ children (g ! x))) (out @ [x])" by simp
  from Cons.IH [OF this] obtain h2 where
    "bfs_loop h1 (xs @ ys @ children (g ! x)) (out @ [x]) =
       bfs_loop h2 ((ys @ children (g ! x)) @ concat (map (\<lambda>r. children (g ! r)) xs)) ((out @ [x]) @ xs)"
    "bfs_inv g root h2 ((ys @ children (g ! x)) @ concat (map (\<lambda>r. children (g ! r)) xs)) ((out @ [x]) @ xs)"
    by blast
  then show ?case using v by (auto simp: bfs_loop_Cons)
qed

lemma bfs_loop_levels:
  assumes t: "tree_ok g root"
  shows "bfs_inv g root h xs out \<Longrightarrow>
         \<exists>h' lv. bfs_loop h xs out = Some (h', out @ lv) \<and> bfs_levels g xs lv"
proof (induction "length g - length out" arbitrary: h xs out rule: less_induct)
  case less
  show ?case
  proof (cases "xs = []")
    case True
    then show ?thesis by (auto simp: bfs_loop_Nil intro: bfs_levels.no_level)
  next
    case False
    from less.prems have "bfs_inv g root h (xs @ []) out" by simp
    from bfs_loop_level [OF t this] obtain h1 where
      eq: "bfs_loop h xs out = bfs_loop h1 (concat (map (\<lambda>r. children (g ! r)) xs)) (out @ xs)"
      and inv1: "bfs_inv g root h1 (concat (map (\<lambda>r. children (g ! r)) xs)) (out @ xs)"
      by auto
    from less.prems have "distinct (out @ xs)" "\<forall>z \<in> set (out @ xs). z < length g"
      unfolding bfs_inv_def by blast+
    from distinct_bounded_length [OF this] False have "length out < length g"
      by (cases xs) auto
    with False have "length g - length (out @ xs) < length g - length out"
      by (cases xs) auto
    from less.hyps [OF this inv1] obtain h' lv where
      "bfs_loop h1 (concat (map (\<lambda>r. children (g ! r)) xs)) (out @ xs) = Some (h', (out @ xs) @ lv)"
      "bfs_levels g (concat (map (\<lambda>r. children (g ! r)) xs)) lv"
      by blast
    with eq False show ?thesis by (auto intro: bfs_levels.next_level)
  qed
qed

section \<open>The tree that the build returns\<close>

lemma bn_div_Inr: "bn_div a b = Inr y \<longleftrightarrow> b \<noteq> 0 \<and> y = trunc_div a b"
  by (auto simp: bn_div_def)

lemma length_push_child [simp]: "length (push_child h p c) = length h"
  by (simp add: push_child_def)

lemma expandTokens_post:
  assumes IH: "\<And>h addr idx par P h' r idx'.
      buildGraphFromPool_result R fuel h addr idx par P w = Inr (h', r, idx') \<Longrightarrow> build_post h par P h' r"
  shows "a < length h \<Longrightarrow> node_ok h a \<Longrightarrow>
         expandTokens_result R fuel h p T a P w ts idx = Inr (h', idx') \<Longrightarrow>
         expand_post h a (finalProportions p T P ts) h'"
proof (induction ts arbitrary: h idx)
  case Nil
  then show ?case by (auto simp: expand_post_def finalProportions_def)
next
  case (Cons t ts)
  show ?case
  proof (cases "token_address t = pool_address p")
    case True
    with Cons.prems have "expandTokens_result R fuel h p T a P w ts idx = Inr (h', idx')" by simp
    from Cons.IH [OF Cons.prems(1,2) this] True show ?thesis
      by (simp add: finalProportions_def)
  next
    case False
    define fp where "fp = trunc_div (trunc_div (token_balance t * WeiPerEther) T * P) WeiPerEther"
    from Cons.prems(3) False obtain h1 c idx1 where
      b: "buildGraphFromPool_result R fuel h (token_address t) idx (Some a) fp w = Inr (h1, c, idx1)"
      and e: "expandTokens_result R fuel (push_child h1 a c) p T a P w ts idx1 = Inr (h', idx')"
      by (auto simp: bn_div_Inr fp_def split: sum.splits)
    from IH [OF b] have c: "c = length h" and len1: "length h < length h1"
      and fr1: "\<And>i. i < length h \<Longrightarrow> h1 ! i = h ! i"
      and pc: "parent (h1 ! c) = Some a" and propc: "proportionOfParent (h1 ! c) = fp"
      and ok1: "\<And>i. length h \<le> i \<Longrightarrow> i < length h1 \<Longrightarrow> node_ok h1 i"
      unfolding build_post_def by blast+
    let ?h2 = "push_child h1 a c"
    have a1: "a < length h1" using Cons.prems(1) len1 by simp
    have len2: "length ?h2 = length h1" by (simp add: push_child_def)
    have h2a: "?h2 ! a = (h ! a)\<lparr>children := children (h ! a) @ [c]\<rparr>"
      using a1 fr1 [OF Cons.prems(1)] by (simp add: push_child_def)
    have h2i: "\<And>i. i \<noteq> a \<Longrightarrow> ?h2 ! i = h1 ! i" by (simp add: push_child_def)
    have par2: "\<And>i. i < length h1 \<Longrightarrow> parent (?h2 ! i) = parent (h1 ! i)"
      using a1 by (simp add: push_child_def nth_list_update)
    have mk2: "\<And>i. i < length h1 \<Longrightarrow> marked (?h2 ! i) = marked (h1 ! i)"
      using a1 by (simp add: push_child_def nth_list_update)
    from Cons.prems(2) have oka: "\<not> marked (h ! a)" "distinct (children (h ! a))"
      "\<And>k. k \<in> set (children (h ! a)) \<Longrightarrow> k < length h \<and> parent (h ! k) = Some a"
      unfolding node_ok_def by blast+
    have ok2a: "node_ok ?h2 a"
      unfolding node_ok_def
    proof (intro conjI ballI)
      show "\<not> marked (?h2 ! a)" using h2a oka(1) by simp
      show "distinct (children (?h2 ! a))" using h2a oka(2,3) c by auto
      fix k assume "k \<in> set (children (?h2 ! a))"
      then consider "k \<in> set (children (h ! a))" | "k = c" using h2a by auto
      then have "k < length ?h2 \<and> parent (?h2 ! k) = Some a"
      proof (cases)
        case 1
        from oka(3) [OF 1] have "k < length h" "parent (h ! k) = Some a" by simp_all
        with len1 fr1 par2 [of k] show ?thesis by (auto simp: len2)
      next
        case 2
        with c len1 pc par2 [of k] show ?thesis by (auto simp: len2)
      qed
      then show "k < length ?h2" "parent (?h2 ! k) = Some a" by simp_all
    qed
    from Cons.IH [OF _ ok2a e] a1 len2 have post: "expand_post ?h2 a (finalProportions p T P ts) h'"
      by simp
    then obtain new where len': "length ?h2 \<le> length h'"
      and fr': "\<And>i. i < length ?h2 \<Longrightarrow> i \<noteq> a \<Longrightarrow> h' ! i = ?h2 ! i"
      and ha': "h' ! a = (?h2 ! a)\<lparr>children := children (?h2 ! a) @ new\<rparr>"
      and new: "\<And>k. k \<in> set new \<Longrightarrow> length ?h2 \<le> k"
      and props: "map (\<lambda>c. proportionOfParent (h' ! c)) new = finalProportions p T P ts"
      and oka': "node_ok h' a"
      and ok': "\<And>i. length ?h2 \<le> i \<Longrightarrow> i < length h' \<Longrightarrow> node_ok h' i"
      unfolding expand_post_def by blast
    have ca: "c \<noteq> a" using c Cons.prems(1) by simp
    have par': "\<And>i. i < length h1 \<Longrightarrow> parent (h' ! i) = parent (h1 ! i)"
    proof -
      fix i assume i: "i < length h1"
      show "parent (h' ! i) = parent (h1 ! i)"
      proof (cases "i = a")
        case True
        then show ?thesis using ha' par2 [OF a1] by simp
      next
        case False
        then show ?thesis using fr' [of i] i len2 h2i by simp
      qed
    qed
    have p1: "length h \<le> length h'" using len1 len2 len' by simp
    have p2: "\<forall>i < length h. i \<noteq> a \<longrightarrow> h' ! i = h ! i"
      using fr' h2i fr1 len1 len2 by auto
    have p3: "h' ! a = (h ! a)\<lparr>children := children (h ! a) @ (c # new)\<rparr>"
      using ha' h2a by simp
    have p4: "\<forall>k \<in> set (c # new). length h \<le> k"
      using c new len1 len2 by (auto dest!: new)
    have "h' ! c = h1 ! c" using fr' [of c] ca c len1 len2 h2i by simp
    then have p5: "map (\<lambda>c. proportionOfParent (h' ! c)) (c # new) = finalProportions p T P (t # ts)"
      using props propc False by (simp add: finalProportions_def fp_def)
    have p6: "\<forall>i. length h \<le> i \<and> i < length h' \<longrightarrow> node_ok h' i"
    proof (intro allI impI)
      fix i assume i: "length h \<le> i \<and> i < length h'"
      show "node_ok h' i"
      proof (cases "i < length h1")
        case False
        then show ?thesis using ok' [of i] i len2 by simp
      next
        case True
        from i Cons.prems(1) have ia: "i \<noteq> a" by simp
        from ok1 [of i] i True have n1: "node_ok h1 i" by simp
        have hi: "h' ! i = h1 ! i" using fr' [of i] True ia len2 h2i by simp
        show ?thesis
          unfolding node_ok_def
        proof (intro conjI ballI)
          show "\<not> marked (h' ! i)" using n1 hi by (simp add: node_ok_def)
          show "distinct (children (h' ! i))" using n1 hi by (simp add: node_ok_def)
          fix k assume "k \<in> set (children (h' ! i))"
          then have k: "k < length h1" "parent (h1 ! k) = Some i"
            using n1 hi by (auto simp: node_ok_def)
          then show "k < length h'" "parent (h' ! k) = Some i"
            using par' [of k] len' len2 by auto
        qed
      qed
    qed
    show ?thesis
      unfolding expand_post_def using p1 p2 p3 p4 p5 oka' p6 by blast
  qed
qed


lemma attach_post:
  assumes a: "a < length h" and oka: "node_ok h a" and b: "build_post h (Some a) Pc h1 c"
  shows "expand_post h a [Pc] (push_child h1 a c)"
proof -
  from b have c: "c = length h" and len1: "length h < length h1"
    and fr1: "\<And>i. i < length h \<Longrightarrow> h1 ! i = h ! i"
    and pc: "parent (h1 ! c) = Some a" and propc: "proportionOfParent (h1 ! c) = Pc"
    and ok1: "\<And>i. length h \<le> i \<Longrightarrow> i < length h1 \<Longrightarrow> node_ok h1 i"
    unfolding build_post_def by blast+
  let ?h2 = "push_child h1 a c"
  have a1: "a < length h1" using a len1 by simp
  have ca: "c \<noteq> a" using c a by simp
  have h2a: "?h2 ! a = (h ! a)\<lparr>children := children (h ! a) @ [c]\<rparr>"
    using a1 fr1 [OF a] by (simp add: push_child_def)
  have h2i: "\<And>i. i \<noteq> a \<Longrightarrow> ?h2 ! i = h1 ! i" by (simp add: push_child_def)
  have par2: "\<And>i. i < length h1 \<Longrightarrow> parent (?h2 ! i) = parent (h1 ! i)"
    using a1 by (simp add: push_child_def nth_list_update)
  from oka have oka': "\<not> marked (h ! a)" "distinct (children (h ! a))"
    "\<And>k. k \<in> set (children (h ! a)) \<Longrightarrow> k < length h \<and> parent (h ! k) = Some a"
    unfolding node_ok_def by blast+
  have ok2a: "node_ok ?h2 a"
    unfolding node_ok_def
  proof (intro conjI ballI)
    show "\<not> marked (?h2 ! a)" using h2a oka'(1) by simp
    show "distinct (children (?h2 ! a))" using h2a oka'(2,3) c by auto
    fix k assume "k \<in> set (children (?h2 ! a))"
    then consider "k \<in> set (children (h ! a))" | "k = c" using h2a by auto
    then have "k < length ?h2 \<and> parent (?h2 ! k) = Some a"
    proof (cases)
      case 1
      from oka'(3) [OF 1] have "k < length h" "parent (h ! k) = Some a" by simp_all
      with len1 fr1 par2 [of k] show ?thesis by auto
    next
      case 2
      with c len1 pc par2 [of k] show ?thesis by auto
    qed
    then show "k < length ?h2" "parent (?h2 ! k) = Some a" by simp_all
  qed
  have p2: "\<forall>i < length h. i \<noteq> a \<longrightarrow> ?h2 ! i = h ! i" using h2i fr1 by simp
  have p4: "\<forall>k \<in> set [c]. length h \<le> k" using c by simp
  have p5: "map (\<lambda>c. proportionOfParent (?h2 ! c)) [c] = [Pc]" using h2i [OF ca] propc by simp
  have p6: "\<forall>i. length h \<le> i \<and> i < length ?h2 \<longrightarrow> node_ok ?h2 i"
  proof (intro allI impI)
    fix i assume i: "length h \<le> i \<and> i < length ?h2"
    then have ia: "i \<noteq> a" using a by simp
    from ok1 [of i] i have n1: "node_ok h1 i" by simp
    show "node_ok ?h2 i"
      unfolding node_ok_def
    proof (intro conjI ballI)
      show "\<not> marked (?h2 ! i)" using n1 h2i [OF ia] by (simp add: node_ok_def)
      show "distinct (children (?h2 ! i))" using n1 h2i [OF ia] by (simp add: node_ok_def)
      fix k assume "k \<in> set (children (?h2 ! i))"
      then have k: "k < length h1" "parent (h1 ! k) = Some i"
        using n1 h2i [OF ia] by (auto simp: node_ok_def)
      then show "k < length ?h2" "parent (?h2 ! k) = Some i"
        using par2 [of k] by auto
    qed
  qed
  show ?thesis
    unfolding expand_post_def using len1 p2 h2a p4 p5 ok2a p6
    by (intro conjI exI [of _ "[c]"]) auto
qed

lemma pool_node_post:
  assumes e: "expand_post (h @ [n]) (length h) props h'"
    and n: "children n = []"
  shows "build_post h (parent n) (proportionOfParent n) h' (length h)"
proof -
  from e obtain new where len: "length (h @ [n]) \<le> length h'"
    and fr: "\<And>i. i < length (h @ [n]) \<Longrightarrow> i \<noteq> length h \<Longrightarrow> h' ! i = (h @ [n]) ! i"
    and ha: "h' ! length h = ((h @ [n]) ! length h)\<lparr>children := children ((h @ [n]) ! length h) @ new\<rparr>"
    and oka: "node_ok h' (length h)"
    and ok: "\<And>i. length (h @ [n]) \<le> i \<Longrightarrow> i < length h' \<Longrightarrow> node_ok h' i"
    unfolding expand_post_def by blast
  have "\<forall>i < length h. h' ! i = h ! i" using fr by (simp add: nth_append)
  moreover have "\<forall>i. length h \<le> i \<and> i < length h' \<longrightarrow> node_ok h' i"
  proof (intro allI impI)
    fix i assume "length h \<le> i \<and> i < length h'"
    then show "node_ok h' i" using oka ok [of i] by (cases "i = length h") auto
  qed
  ultimately show ?thesis
    unfolding build_post_def using len ha by simp
qed

lemma createInputTokenNode_post:
  assumes "createInputTokenNode h idx addr dec par P = (h', r, idx')"
  shows "build_post h par P h' r"
  using assms
  by (auto simp: createInputTokenNode_def alloc_def build_post_def node_ok_def nth_append)

lemma node_ok_leaf: "children n = [] \<Longrightarrow> \<not> marked n \<Longrightarrow> node_ok (h @ [n]) (length h)"
  by (simp add: node_ok_def)

lemma createWrappedTokenNode_post:
  assumes "createWrappedTokenNode h p idx par P = Inr (h', r, idx')"
  shows "build_post h par P h' r"
  using assms
  by (auto simp: createWrappedTokenNode_def createInputTokenNode_def alloc_def build_post_def
        node_ok_def nth_append nth_list_update less_Suc_eq
      split: option.splits prod.splits if_splits)

lemma createLinearNodeChildren_wrapE:
  assumes "createLinearNodeChildren h a idx p True = Inr (h', r, idx')"
  shows "\<exists>h1 w. createWrappedTokenNode h p idx (Some a) (proportionOfParent (h ! a)) = Inr (h1, w, idx') \<and>
           h' = push_child h1 a w \<and> r = a"
  using assms by (auto simp: createLinearNodeChildren_def split: sum.splits prod.splits)

lemma createLinearNodeChildren_mainE:
  assumes "createLinearNodeChildren h a idx p False = Inr (h', r, idx')"
  shows "\<exists>h1 i maddr dec. createInputTokenNode h idx maddr dec (Some a) (proportionOfParent (h ! a)) = (h1, i, idx') \<and>
           h' = push_child h1 a i \<and> r = a"
proof -
  from assms obtain mi mt maddr where "mainIndex p = Some mi" "at (tokens p) (int mi) = Some mt"
    "at (tokensList p) (int mi) = Some maddr"
    by (simp add: createLinearNodeChildren_def split: option.splits)
  with assms show ?thesis
    by (cases "createInputTokenNode h idx maddr (case token_decimals mt of None \<Rightarrow> 18 | Some d \<Rightarrow> d)
                 (Some a) (proportionOfParent (h ! a))")
       (auto simp: createLinearNodeChildren_def)
qed

lemma createLinearNodeChildren_post:
  assumes c: "createLinearNodeChildren (h @ [n]) (length h) idx p wrap = Inr (h', r, idx')"
    and n: "children n = []" "\<not> marked n"
  shows "build_post h (parent n) (proportionOfParent n) h' r"
proof -
  have a: "length h < length (h @ [n])" by simp
  note ok = node_ok_leaf [OF n, of h]
  show ?thesis
  proof (cases wrap)
    case True
    from c True have "createLinearNodeChildren (h @ [n]) (length h) idx p True = Inr (h', r, idx')"
      by simp
    from createLinearNodeChildren_wrapE [OF this] obtain h1 w where
      "createWrappedTokenNode (h @ [n]) p idx (Some (length h)) (proportionOfParent n) = Inr (h1, w, idx')"
      and h': "h' = push_child h1 (length h) w" and r: "r = length h"
      by auto
    from attach_post [OF a ok createWrappedTokenNode_post [OF this(1)]] h' r
      pool_node_post [OF _ n(1)] show ?thesis by blast
  next
    case False
    from c False have "createLinearNodeChildren (h @ [n]) (length h) idx p False = Inr (h', r, idx')"
      by simp
    from createLinearNodeChildren_mainE [OF this] obtain h1 i maddr dec where
      "createInputTokenNode (h @ [n]) idx maddr dec (Some (length h)) (proportionOfParent n) = (h1, i, idx')"
      and h': "h' = push_child h1 (length h) i" and r: "r = length h"
      by auto
    from attach_post [OF a ok createInputTokenNode_post [OF this(1)]] h' r
      pool_node_post [OF _ n(1)] show ?thesis by blast
  qed
qed

lemma buildGraphFromPool_post:
  "buildGraphFromPool_result R fuel h addr idx par P w = Inr (h', r, idx') \<Longrightarrow> build_post h par P h' r"
proof (induction fuel arbitrary: h addr idx par P h' r idx')
  case 0
  then show ?case by simp
next
  case (Suc fuel)
  show ?case
  proof (cases "pools_findBy R addr")
    case None
    with Suc.prems obtain dec where "createInputTokenNode h idx addr dec par P = (h', r, idx')"
      by (auto split: option.splits)
    then show ?thesis by (rule createInputTokenNode_post)
  next
    case (Some p)
    with Suc.prems obtain ja ea where acts: "joinActions (poolType p) = Some ja"
      "exitActions (poolType p) = Some ea"
      by (auto split: option.splits)
    obtain sps dec where info: "poolTokenInfo R p (tokens p) ([], 18) = (sps, dec)"
      by (cases "poolTokenInfo R p (tokens p) ([], 18)")
    define n where "n =
      \<lparr>address = pool_address p, node_id = pool_id p, joinAction = ja,
       exitAction = ea, node_type = poolType p, children = [], marked = False,
       index = toString idx, proportionOfParent = P,
       parent = par, isLeaf = False, spotPrices = sps, decimals = dec\<rparr>"
    have n: "children n = []" "\<not> marked n" "parent n = par" "proportionOfParent n = P"
      by (simp_all add: n_def)
    show ?thesis
    proof (cases "str_includes (poolType p) ''Linear''")
      case True
      with Suc.prems Some acts info
      have "createLinearNodeChildren (h @ [n]) (length h) (idx + 1) p w = Inr (h', r, idx')"
        by (simp add: alloc_def n_def)
      from createLinearNodeChildren_post [OF this n(1,2)] n(3,4) show ?thesis by simp
    next
      case False
      with Suc.prems Some acts info
      have e: "expandTokens_result R fuel (h @ [n]) p (getTokenTotal p) (length h) P w (tokens p) (idx + 1) =
                 Inr (h', idx')" and r: "r = length h"
        by (auto simp: alloc_def n_def split: sum.splits)
      have "expand_post (h @ [n]) (length h) (finalProportions p (getTokenTotal p) P (tokens p)) h'"
        by (rule expandTokens_post [OF Suc.IH _ node_ok_leaf [OF n(1,2)] e]) simp_all
      from pool_node_post [OF this n(1)] n(3,4) r show ?thesis by simp
    qed
  qed
qed

lemma built_tree_ok:
  assumes "buildGraphFromRootPool R fuel poolId w = Inr (g, root)"
  shows "tree_ok g root"
proof -
  from assms obtain addr idx where
    "buildGraphFromPool_result R fuel [] addr 0 None WeiPerEther w = Inr (g, root, idx)"
    by (auto simp: buildGraphFromRootPool_def split: option.splits sum.splits)
  from buildGraphFromPool_post [OF this] show ?thesis
    unfolding build_post_def tree_ok_def heap_ok_def node_ok_def by auto
qed

lemma reach_valid:
  assumes "heap_ok g" and "root < length g" and "r \<in> reach g root"
  shows "r < length g"
  using assms(3)
proof (induction rule: reach.induct)
  case reach_root
  then show ?case using assms(2) .
next
  case (reach_child r c)
  then show ?case using assms(1) unfolding heap_ok_def by blast
qed

lemma orderByBfs_graph:
  assumes ok: "heap_ok g" and root: "root < length g"
    and fresh: "\<forall>r < length g. \<not> marked (g ! r)"
  shows "\<exists>h' ns. orderByBfs g root = Some (h', ns) \<and> hd ns = root \<and> distinct ns \<and>
                 set ns = reach g root"
proof -
  from orderByBfs_total [OF ok root] obtain h' ns where
    r: "orderByBfs g root = Some (h', ns)" and inv: "bfs_inv g root h' [] ns"
    and ne: "ns \<noteq> []" and hd: "hd ns = root"
    by blast
  from inv have d: "distinct ns" and sub: "set ns \<subseteq> reach g root"
    and closed: "\<forall>x \<in> set ns. \<forall>c \<in> set (children (g ! x)). marked (g ! c) \<or> c \<in> set ns"
    unfolding bfs_inv_def by simp_all
  have rin: "root \<in> set ns" using ne hd by (cases ns) auto
  have "\<forall>c \<in> reach g root. c \<noteq> root \<longrightarrow> \<not> marked (g ! c)"
    using fresh reach_valid [OF ok root] by blast
  from reach_in_closed [OF rin closed this] sub have "set ns = reach g root" by blast
  with r hd d show ?thesis by blast
qed

text \<open>
  C6. On the store as \<^verbatim>\<open>buildGraphFromRootPool\<close> returns it, \<^verbatim>\<open>orderByBfs\<close> returns, and
  its result starts with the root, holds no node twice, holds exactly the nodes reachable
  from the root, and is the sequence of the levels: the root, then its children in the
  order of its \<open>children\<close> array, then theirs, and so on. The second part is about any
  well-formed store in which no node is marked, a tree or not: also there the call
  returns, with every reachable node exactly once and the root first.
\<close>

theorem orderByBfs_every_node_once_level_by_level:
  "(buildGraphFromRootPool R fuel poolId w = Inr (g, root) \<longrightarrow>
      (\<exists>h' ns. orderByBfs g root = Some (h', ns) \<and> hd ns = root \<and> distinct ns \<and>
               set ns = reach g root \<and> bfs_levels g [root] ns)) \<and>
   (heap_ok s \<and> r < length s \<and> list_all (\<lambda>n. \<not> marked n) s \<longrightarrow>
      (\<exists>s' ns. orderByBfs s r = Some (s', ns) \<and> hd ns = r \<and> distinct ns \<and>
               set ns = reach s r))"
proof (intro conjI impI)
  assume "buildGraphFromRootPool R fuel poolId w = Inr (g, root)"
  from built_tree_ok [OF this] have t: "tree_ok g root" .
  then have ok: "heap_ok g" and root: "root < length g" and fresh: "\<forall>r < length g. \<not> marked (g ! r)"
    unfolding tree_ok_def by blast+
  from orderByBfs_graph [OF ok root fresh] obtain h' ns where
    r: "orderByBfs g root = Some (h', ns)" "hd ns = root" "distinct ns" "set ns = reach g root"
    by blast
  from bfs_loop_levels [OF t bfs_inv_init [OF root]] obtain h'' lv where
    "bfs_loop (g[root := (g ! root)\<lparr>marked := True\<rparr>]) [root] [] = Some (h'', [] @ lv)"
    "bfs_levels g [root] lv"
    by blast
  with r(1) have "bfs_levels g [root] ns" by (simp add: orderByBfs_def)
  with r show "\<exists>h' ns. orderByBfs g root = Some (h', ns) \<and> hd ns = root \<and> distinct ns \<and>
      set ns = reach g root \<and> bfs_levels g [root] ns"
    by blast
next
  assume "heap_ok s \<and> r < length s \<and> list_all (\<lambda>n. \<not> marked n) s"
  then have "heap_ok s \<and> r < length s \<and> (\<forall>i < length s. \<not> marked (s ! i))"
    by (simp add: list_all_length)
  then show "\<exists>s' ns. orderByBfs s r = Some (s', ns) \<and> hd ns = r \<and> distinct ns \<and> set ns = reach s r"
    using orderByBfs_graph by blast
qed

theorem orderByBfs_every_node_once_level_by_level_witness:
  "buildGraphFromRootPool R1 (Suc (Suc 0)) ''id1'' False = Inr (H1, 0) \<and>
   (\<exists>h' ns. orderByBfs H1 0 = Some (h', ns) \<and> hd ns = 0 \<and> distinct ns \<and>
            set ns = reach H1 0 \<and> bfs_levels H1 [0] ns) \<and>
   heap_ok H_shared \<and> 0 < length H_shared \<and> list_all (\<lambda>n. \<not> marked n) H_shared \<and>
   children (H_shared ! 1) = [3] \<and> children (H_shared ! 2) = [3] \<and>
   (\<exists>s' ns. orderByBfs H_shared 0 = Some (s', ns) \<and> hd ns = 0 \<and> distinct ns \<and>
            set ns = reach H_shared 0)"
proof -
  have 1: "heap_ok H_shared \<and> 0 < length H_shared \<and> list_all (\<lambda>n. \<not> marked n) H_shared"
    by (simp add: heap_ok_def H_shared_def less_Suc_eq numeral_3_eq_3 All_less_Suc)
  have 2: "children (H_shared ! 1) = [3] \<and> children (H_shared ! 2) = [3]"
    by (simp add: H_shared_def)
  from orderByBfs_every_node_once_level_by_level [of R1 "Suc (Suc 0)" "''id1''" False H1 0 H_shared 0]
    ex1_built 1 2 show ?thesis by blast
qed

lemma visitChildren_all_marked:
  "\<forall>c \<in> set cs. marked (h ! c) \<Longrightarrow> visitChildren h nodes cs = (h, nodes)"
  by (induction cs) auto

lemma marked_update_id: "marked n \<Longrightarrow> n\<lparr>marked := True\<rparr> = n"
  by (cases n) simp

section \<open>What the traversal writes\<close>

text \<open>
  C7, as amended. The claim that \<^verbatim>\<open>orderByBfs\<close> leaves every field of every node
  unchanged, the \<open>marked\<close> flag included, does not hold: the function marks the nodes it
  returns and never clears the flag. What holds on every well-formed store: the call
  returns, the store keeps its size, and a node differs from what it was at most in its
  \<open>marked\<close> flag, which is set on exactly the returned nodes and left as it was on the
  others.
\<close>

theorem orderByBfs_changes_only_marked:
  assumes "heap_ok g" and "root < length g"
  shows "\<exists>h' ns. orderByBfs g root = Some (h', ns) \<and> length h' = length g \<and>
           (\<forall>r < length g. h' ! r = (g ! r)\<lparr>marked := marked (g ! r) \<or> r \<in> set ns\<rparr>)"
proof -
  from orderByBfs_total [OF assms] obtain h' ns where
    "orderByBfs g root = Some (h', ns)" "bfs_inv g root h' [] ns"
    by blast
  then show ?thesis unfolding bfs_inv_def by auto
qed

theorem orderByBfs_changes_only_marked_witness:
  "heap_ok H1 \<and> 0 < length H1 \<and>
   (\<exists>h' ns. orderByBfs H1 0 = Some (h', ns) \<and> length h' = length H1 \<and>
      (\<forall>r < length H1. h' ! r = (H1 ! r)\<lparr>marked := marked (H1 ! r) \<or> r \<in> set ns\<rparr>))"
proof -
  have "heap_ok H1 \<and> 0 < length H1"
    by (simp add: heap_ok_def H1_def less_Suc_eq numeral_3_eq_3 All_less_Suc)
  with orderByBfs_changes_only_marked [of H1 0] show ?thesis by blast
qed

text \<open>
  The counterexample to C7 as stated: the root of the example tree is not marked before
  the call and is marked after it.
\<close>

theorem orderByBfs_sets_marked_counterexample:
  "buildGraphFromRootPool R1 (Suc (Suc 0)) ''id1'' False = Inr (H1, 0) \<and>
   orderByBfs H1 0 = Some (H1_marked, [0, 1, 2]) \<and>
   \<not> marked (H1 ! 0) \<and> marked (H1_marked ! 0)"
  using ex1_built ex1_bfs by (simp add: H1_marked_def H1_def)

text \<open>
  C10. On every well-formed store \<^verbatim>\<open>orderByBfs\<close> returns with every returned node
  marked and no flag cleared, and a second call on the same root, on the store the first
  call left, returns the root alone (and changes nothing).
\<close>

theorem orderByBfs_second_call_only_root:
  assumes ok: "heap_ok g" and root: "root < length g"
  shows "\<exists>h1 ns. orderByBfs g root = Some (h1, ns) \<and>
           (\<forall>r \<in> set ns. marked (h1 ! r)) \<and>
           (\<forall>r < length g. marked (g ! r) \<longrightarrow> marked (h1 ! r)) \<and>
           orderByBfs h1 root = Some (h1, [root])"
proof -
  from orderByBfs_total [OF ok root] obtain h1 ns where
    r: "orderByBfs g root = Some (h1, ns)" and inv: "bfs_inv g root h1 [] ns"
    and ne: "ns \<noteq> []" and hd: "hd ns = root"
    by blast
  from inv have len: "length h1 = length g"
    and frame: "\<And>r. r < length g \<Longrightarrow> h1 ! r = (g ! r)\<lparr>marked := marked (g ! r) \<or> r \<in> set ns\<rparr>"
    and valid: "\<And>r. r \<in> set ns \<Longrightarrow> r < length g"
    and closed: "\<And>x c. x \<in> set ns \<Longrightarrow> c \<in> set (children (g ! x)) \<Longrightarrow> marked (g ! c) \<or> c \<in> set ns"
    unfolding bfs_inv_def by simp_all
  have rin: "root \<in> set ns" using ne hd by (cases ns) auto
  have m: "\<And>r. r < length g \<Longrightarrow> marked (h1 ! r) = (marked (g ! r) \<or> r \<in> set ns)"
    using frame by simp
  have a: "\<forall>r \<in> set ns. marked (h1 ! r)" using m valid by blast
  have b: "\<forall>r < length g. marked (g ! r) \<longrightarrow> marked (h1 ! r)" using m by blast
  have kids: "children (h1 ! root) = children (g ! root)" using frame [OF root] by simp
  have "\<forall>c \<in> set (children (g ! root)). marked (h1 ! c)"
  proof
    fix c assume c: "c \<in> set (children (g ! root))"
    then have "c < length g" using ok root unfolding heap_ok_def by blast
    with closed [OF rin c] m show "marked (h1 ! c)" by blast
  qed
  then have v: "visitChildren h1 [] (children (h1 ! root)) = (h1, [])"
    using kids by (simp add: visitChildren_all_marked)
  have "marked (h1 ! root)" using a rin by blast
  then have "h1[root := (h1 ! root)\<lparr>marked := True\<rparr>] = h1"
    by (simp add: marked_update_id)
  then have "orderByBfs h1 root = Some (h1, [root])"
    using v by (simp add: orderByBfs_def bfs_loop_Cons bfs_loop_Nil)
  with r a b show ?thesis by blast
qed

theorem orderByBfs_second_call_only_root_witness:
  "heap_ok H1 \<and> 0 < length H1 \<and>
   (\<exists>h1 ns. orderByBfs H1 0 = Some (h1, ns) \<and>
      (\<forall>r \<in> set ns. marked (h1 ! r)) \<and>
      (\<forall>r < length H1. marked (H1 ! r) \<longrightarrow> marked (h1 ! r)) \<and>
      orderByBfs h1 0 = Some (h1, [0]))"
proof -
  have "heap_ok H1 \<and> 0 < length H1"
    by (simp add: heap_ok_def H1_def less_Suc_eq numeral_3_eq_3 All_less_Suc)
  with orderByBfs_second_call_only_root [of H1 0] show ?thesis by blast
qed

section \<open>The root's own token as input\<close>

text \<open>
  The counterexample to C1 as stated. On the breadth-first order itself, where the root
  is the first node, \<^verbatim>\<open>getNodesToRoot\<close> compares the input token with the address of
  the last node, which is not the root here; the root's address is then found by the
  search, and the call returns a path of one new Input node instead of failing.
\<close>

theorem getNodesToRoot_root_first_counterexample:
  "buildGraphFromRootPool R1 (Suc (Suc 0)) ''id1'' False = Inr (H1, 0) \<and>
   orderByBfs H1 0 = Some (H1_marked, [0, 1, 2]) \<and>
   toLowerCase ''0xP1'' = toLowerCase (address (H1_marked ! 0)) \<and>
   getNodesToRoot H1_marked [0, 1, 2] ''0xP1'' 0 = Some (Inr (H1_root_path, [3]))"
  using ex1_built ex1_bfs ex1_root_path by (simp add: H1_marked_def H1_def)

text \<open>
  C1, as amended. The function takes the last node of the list for the root. For every
  built tree and its breadth-first order reversed (root last), a call with an input token
  that equals the root's address up to the case of the letters fails with
  \<open>INPUT_TOKEN_INVALID\<close>, whatever the starting index.
\<close>

theorem getNodesToRoot_rejects_root_last:
  assumes built: "buildGraphFromRootPool R fuel poolId w = Inr (g, root)"
    and bfs: "orderByBfs g root = Some (h, ns)"
    and tok: "toLowerCase inputToken = toLowerCase (address (h ! root))"
  shows "getNodesToRoot h (rev ns) inputToken startingIndex = Some (Inl INPUT_TOKEN_INVALID)"
proof -
  from built_tree_ok [OF built] have "heap_ok g" "root < length g"
    unfolding tree_ok_def by blast+
  from orderByBfs_total [OF this] bfs have ne: "ns \<noteq> []" and hd: "hd ns = root" by auto
  have "at (rev ns) (int (length (rev ns)) - 1) = Some root"
    using ne hd by (cases ns) (auto simp: at_def nth_append)
  with tok show ?thesis by (simp add: getNodesToRoot_def)
qed

theorem getNodesToRoot_rejects_root_last_witness:
  "buildGraphFromRootPool R1 (Suc (Suc 0)) ''id1'' False = Inr (H1, 0) \<and>
   orderByBfs H1 0 = Some (H1_marked, [0, 1, 2]) \<and>
   toLowerCase ''0xp1'' = toLowerCase (address (H1_marked ! 0)) \<and>
   getNodesToRoot H1_marked (rev [0, 1, 2]) ''0xp1'' 7 = Some (Inl INPUT_TOKEN_INVALID)"
proof -
  have "toLowerCase ''0xp1'' = toLowerCase (address (H1_marked ! 0))"
    by (simp add: H1_marked_def H1_def toLowerCase_def toLowerCaseChar_def)
  with getNodesToRoot_rejects_root_last [OF ex1_built ex1_bfs, of "''0xp1''" 7] ex1_built ex1_bfs
  show ?thesis by simp
qed

section \<open>When the build fails with \<open>POOL_DOESNT_EXIST\<close>\<close>

lemma createLinearNodeChildren_errors:
  "createLinearNodeChildren h a idx p w = Inl e \<Longrightarrow>
     e = IssueWithLinearPool \<or> e = TypeError \<or> e = UndefinedAddress"
  by (auto simp: createLinearNodeChildren_def createWrappedTokenNode_def Let_def
      split: if_splits option.splits sum.splits prod.splits)

lemma createLinearNodeChildren_not_POOL_DOESNT_EXIST:
  "createLinearNodeChildren h a idx p w \<noteq> Inl POOL_DOESNT_EXIST"
  using createLinearNodeChildren_errors [of h a idx p w POOL_DOESNT_EXIST] by auto

lemma expandTokens_not_POOL_DOESNT_EXIST:
  assumes IH: "\<And>h addr idx pr P.
      buildGraphFromPool_result R fuel h addr idx (Some pr) P w \<noteq> Inl POOL_DOESNT_EXIST"
  shows "expandTokens_result R fuel h p T a P w ts idx \<noteq> Inl POOL_DOESNT_EXIST"
proof (induction ts arbitrary: h idx)
  case Nil
  then show ?case by simp
next
  case (Cons t ts)
  then show ?case using IH by (auto simp: bn_div_def split: sum.splits)
qed

lemma buildGraphFromPool_Some_parent_not_POOL_DOESNT_EXIST:
  "buildGraphFromPool_result R fuel h addr idx (Some pr) P w \<noteq> Inl POOL_DOESNT_EXIST"
proof (induction fuel arbitrary: h addr idx pr P)
  case 0
  then show ?case by simp
next
  case (Suc fuel)
  note e = expandTokens_not_POOL_DOESNT_EXIST [of R fuel w, OF Suc.IH]
  show ?case
    using e
    by (auto simp: alloc_def createLinearNodeChildren_not_POOL_DOESNT_EXIST
        split: option.splits sum.splits prod.splits)
qed

lemma buildGraphFromPool_root_POOL_DOESNT_EXIST:
  "buildGraphFromPool_result R (Suc fuel) h addr idx None P w = Inl POOL_DOESNT_EXIST \<longleftrightarrow>
     pools_findBy R addr = None"
proof (cases "pools_findBy R addr")
  case None
  then show ?thesis by simp
next
  case (Some p)
  note e = expandTokens_not_POOL_DOESNT_EXIST [of R fuel w,
      OF buildGraphFromPool_Some_parent_not_POOL_DOESNT_EXIST]
  show ?thesis
    using Some e
    by (auto simp: alloc_def createLinearNodeChildren_not_POOL_DOESNT_EXIST
        split: option.splits sum.splits prod.splits)
qed

text \<open>
  C5, as amended. \<^verbatim>\<open>buildGraphFromRootPool\<close> fails with \<open>POOL_DOESNT_EXIST\<close> exactly
  when the pool id has no record or the address of the root pool resolves to no pool,
  for every amount of fuel from one unit on. A failed build is an \<open>Inl\<close>: it carries
  no tree.
\<close>

theorem buildGraphFromRootPool_POOL_DOESNT_EXIST_iff:
  "buildGraphFromRootPool R (Suc fuel) poolId w = Inl POOL_DOESNT_EXIST \<longleftrightarrow>
     pools_find R poolId = None \<or>
     (\<exists>rootPool. pools_find R poolId = Some rootPool \<and>
                 pools_findBy R (pool_address rootPool) = None)"
proof (cases "pools_find R poolId")
  case None
  then show ?thesis by (simp add: buildGraphFromRootPool_def)
next
  case (Some rootPool)
  have "buildGraphFromRootPool R (Suc fuel) poolId w = Inl POOL_DOESNT_EXIST \<longleftrightarrow>
        buildGraphFromPool_result R (Suc fuel) [] (pool_address rootPool) 0 None WeiPerEther w =
          Inl POOL_DOESNT_EXIST"
    using Some by (auto simp: buildGraphFromRootPool_def split: sum.splits)
  with Some show ?thesis
    by (simp only: buildGraphFromPool_root_POOL_DOESNT_EXIST) simp
qed

theorem buildGraphFromRootPool_POOL_DOESNT_EXIST_iff_witness:
  "pools_find R3 ''none'' = None \<and>
   buildGraphFromRootPool R3 (Suc 0) ''none'' False = Inl POOL_DOESNT_EXIST \<and>
   pools_find R1 ''id1'' = Some P1 \<and> pools_findBy R1 (pool_address P1) = Some P1 \<and>
   buildGraphFromRootPool R1 (Suc (Suc 0)) ''id1'' False \<noteq> Inl POOL_DOESNT_EXIST"
proof -
  have 1: "pools_find R3 ''none'' = None" by (simp add: R3_def)
  have 2: "pools_find R1 ''id1'' = Some P1 \<and> pools_findBy R1 (pool_address P1) = Some P1"
    by (simp add: R1_def P1_def)
  from buildGraphFromRootPool_POOL_DOESNT_EXIST_iff [of R3 0 "''none''" False] 1
  have a: "buildGraphFromRootPool R3 (Suc 0) ''none'' False = Inl POOL_DOESNT_EXIST" by blast
  from buildGraphFromRootPool_POOL_DOESNT_EXIST_iff [of R1 "Suc 0" "''id1''" False] 2
  have b: "buildGraphFromRootPool R1 (Suc (Suc 0)) ''id1'' False \<noteq> Inl POOL_DOESNT_EXIST" by auto
  from 1 2 a b show ?thesis by blast
qed

text \<open>
  The counterexample to C5 as stated. In \<open>R4\<close> the root id has a record and the root's
  address resolves to no pool: the build fails with \<open>POOL_DOESNT_EXIST\<close>, outside the
  two cases of the claim. In \<open>R3\<close> the root id has a record and the root's address
  resolves, the token \<open>0xa\<close> resolves to no pool and neither does the address of its
  parent node: this is the second case of the claim, and the build fails with another
  error, not with \<open>POOL_DOESNT_EXIST\<close>.
\<close>

theorem buildGraphFromRootPool_POOL_DOESNT_EXIST_counterexample:
  "pools_find R4 ''id1'' = Some P1 \<and>
   pools_findBy R4 (pool_address P1) = None \<and>
   buildGraphFromRootPool R4 (Suc (Suc 0)) ''id1'' False = Inl POOL_DOESNT_EXIST \<and>
   pools_find R3 ''id3'' = Some P3 \<and>
   pools_findBy R3 (pool_address P3) = Some (P3\<lparr>pool_address := ''0xp3''\<rparr>) \<and>
   pools_findBy R3 ''0xa'' = None \<and>
   pools_findBy R3 ''0xp3'' = None \<and>
   buildGraphFromRootPool R3 (Suc (Suc 0)) ''id3'' False = Inl TypeError"
  by (simp add: buildGraphFromRootPool_def R3_def R4_def P3_def P1_def eval_defs)

section \<open>The token total and the balances of the other tokens\<close>

lemma indexOf_ge: "- 1 \<le> indexOf xs v"
  by (induction xs) (auto simp: Let_def)

lemma indexOf_neg_iff: "indexOf xs v < 0 \<longleftrightarrow> v \<notin> set xs"
  using indexOf_ge [of _ v] by (induction xs) (auto simp: Let_def)

lemma enumerate_fst_ge: "(i, b) \<in> set (enumerate n xs) \<Longrightarrow> n \<le> i"
  by (auto simp: in_set_enumerate_eq)

lemma total_except_index:
  "count_list (map token_address ts) a \<le> 1 \<Longrightarrow>
   sum_list (map snd (filter (\<lambda>(i, b). indexOf (map token_address ts) a + int n \<noteq> int i)
                            (enumerate n (map token_balance ts)))) =
   sum_list (map token_balance (filter (\<lambda>t. token_address t \<noteq> a) ts))"
proof (induction ts arbitrary: n)
  case Nil
  then show ?case by simp
next
  case (Cons t ts)
  let ?k = "indexOf (map token_address ts) a"
  show ?case
  proof (cases "token_address t = a")
    case True
    with Cons.prems have "count_list (map token_address ts) a = 0" by simp
    then have notin: "a \<notin> set (map token_address ts)"
      using count_list_0_iff [of "map token_address ts" a] by blast
    have "filter (\<lambda>(i, b). int n \<noteq> int i) (enumerate (Suc n) (map token_balance ts)) =
          enumerate (Suc n) (map token_balance ts)"
      by (rule filter_True) (auto dest: enumerate_fst_ge)
    moreover have "filter (\<lambda>t. token_address t \<noteq> a) ts = ts"
      using notin by (intro filter_True) auto
    ultimately show ?thesis using True by (simp add: map_snd_enumerate)
  next
    case False
    with Cons.prems have d: "count_list (map token_address ts) a \<le> 1" by simp
    have eq: "filter (\<lambda>(i, b). (if ?k < 0 then - 1 else ?k + 1) + int n \<noteq> int i)
                (enumerate (Suc n) (map token_balance ts)) =
              filter (\<lambda>(i, b). ?k + int (Suc n) \<noteq> int i) (enumerate (Suc n) (map token_balance ts))"
      using indexOf_ge [of "map token_address ts" a]
      by (intro filter_cong refl) (auto dest: enumerate_fst_ge)
    have k0: "(if ?k < 0 then - 1 else ?k + 1) \<noteq> 0"
      using indexOf_ge [of "map token_address ts" a] by auto
    show ?thesis
      using False k0 Cons.IH [OF d, of "Suc n"] eq by (simp add: Let_def)
  qed
qed

lemma getTokenTotal_nonself:
  assumes "tokensList p = map token_address (tokens p)"
    and "count_list (tokensList p) (pool_address p) \<le> 1"
  shows "getTokenTotal p =
         sum_list (map token_balance (filter (\<lambda>t. token_address t \<noteq> pool_address p) (tokens p)))"
  using total_except_index [of "tokens p" "pool_address p" 0] assms
  by (simp add: getTokenTotal_def parsedBalances_def)

lemma getTokenTotal_nonneg:
  assumes "\<forall>t \<in> set (tokens p). 0 \<le> token_balance t"
  shows "0 \<le> getTokenTotal p"
  unfolding getTokenTotal_def Let_def
  by (rule sum_list_nonneg) (use assms in \<open>auto simp: in_set_enumerate_eq parsedBalances_def\<close>)

section \<open>Division by the token total\<close>




lemma expandTokens_zero_total:
  assumes "\<exists>t \<in> set ts. token_address t \<noteq> pool_address p"
  shows "expandTokens_result R fuel h p 0 a P w ts idx = Inl DivisionByZero"
  using assms by (induction ts arbitrary: h idx) (auto simp: bn_div_def)





section \<open>The proportions of the children\<close>

lemma trunc_div_nonneg: "0 \<le> a \<Longrightarrow> 0 < b \<Longrightarrow> trunc_div a b = a div b"
  by (cases "a = 0") (simp_all add: trunc_div_def)

lemma div_bounds:
  fixes x d :: int
  assumes "0 < d"
  shows "d * (x div d) \<le> x" and "x \<le> d * (x div d) + (d - 1)"
proof -
  have "x = d * (x div d) + x mod d" by simp
  moreover have "0 \<le> x mod d" "x mod d < d" using assms by simp_all
  ultimately show "d * (x div d) \<le> x" and "x \<le> d * (x div d) + (d - 1)" by linarith+
qed

lemma proportion_sums:
  fixes T P W :: int
  assumes T: "0 < T" and W: "0 < W"
  shows "T * sum_list (map (\<lambda>b. b * W div T) bs) \<le> W * sum_list bs \<and>
         W * sum_list bs \<le> T * sum_list (map (\<lambda>b. b * W div T) bs) + int (length bs) * (T - 1) \<and>
         W * sum_list (map (\<lambda>b. (b * W div T) * P div W) bs) \<le> P * sum_list (map (\<lambda>b. b * W div T) bs) \<and>
         P * sum_list (map (\<lambda>b. b * W div T) bs) \<le>
           W * sum_list (map (\<lambda>b. (b * W div T) * P div W) bs) + int (length bs) * (W - 1)"
proof (induction bs)
  case Nil
  then show ?case by simp
next
  case (Cons b bs)
  note c = div_bounds [OF T, of "b * W"]
  note f = div_bounds [OF W, of "(b * W div T) * P"]
  from Cons c f show ?case
    by (simp add: distrib_left distrib_right mult.commute)
qed

lemma proportion_sum_le:
  fixes T P W :: int
  assumes T: "0 < T" and W: "0 < W" and P: "0 \<le> P"
    and sum: "sum_list bs = T"
  shows "sum_list (map (\<lambda>b. (b * W div T) * P div W) bs) \<le> P"
proof -
  define Sc where "Sc = sum_list (map (\<lambda>b. b * W div T) bs)"
  define Sf where "Sf = sum_list (map (\<lambda>b. (b * W div T) * P div W) bs)"
  from proportion_sums [OF T W, of bs P] sum
  have 1: "T * Sc \<le> W * T" and 3: "W * Sf \<le> P * Sc"
    unfolding Sc_def Sf_def by simp_all
  have ScW: "Sc \<le> W"
  proof -
    from 1 have "T * Sc \<le> T * W" by (simp add: mult.commute)
    then show ?thesis using T by (simp add: mult_le_cancel_left_pos)
  qed
  have "P * Sc \<le> P * W" using ScW P by (rule mult_left_mono)
  with 3 have "W * Sf \<le> W * P" by (simp add: mult.commute)
  then have "Sf \<le> P" using W by (simp add: mult_le_cancel_left_pos)
  then show ?thesis unfolding Sf_def .
qed

lemma trunc_div_abs_bound:
  assumes "b \<noteq> 0"
  shows "\<bar>b * trunc_div a b - a\<bar> \<le> \<bar>b\<bar> - 1"
proof -
  define q where "q = \<bar>a\<bar> div \<bar>b\<bar>"
  define m where "m = \<bar>a\<bar> mod \<bar>b\<bar>"
  have am: "\<bar>a\<bar> = \<bar>b\<bar> * q + m" unfolding q_def m_def by simp
  have m: "0 \<le> m" "m \<le> \<bar>b\<bar> - 1" using assms unfolding m_def by simp_all
  have "b * trunc_div a b = sgn a * (\<bar>b\<bar> * q)"
    by (simp add: trunc_div_def q_def abs_sgn mult.commute mult.left_commute)
  moreover have "a = sgn a * \<bar>a\<bar>" by (simp add: sgn_mult_abs)
  ultimately have "b * trunc_div a b - a = sgn a * (\<bar>b\<bar> * q - \<bar>a\<bar>)"
    by (simp add: right_diff_distrib)
  also have "\<dots> = sgn a * (- m)" using am by simp
  finally have "\<bar>b * trunc_div a b - a\<bar> = \<bar>sgn a\<bar> * m" using m(1) by (simp add: abs_mult)
  moreover have "\<bar>sgn a\<bar> * m \<le> m" using m(1) by (cases "a = 0") (simp_all add: abs_sgn_eq)
  ultimately show ?thesis using m(2) by linarith
qed

lemma proportion_sums_abs:
  fixes T P W :: int
  assumes T: "T \<noteq> 0" and W: "0 < W"
  shows "\<bar>T * sum_list (map (\<lambda>b. trunc_div (b * W) T) bs) - W * sum_list bs\<bar>
           \<le> int (length bs) * (\<bar>T\<bar> - 1) \<and>
         \<bar>W * sum_list (map (\<lambda>b. trunc_div (trunc_div (b * W) T * P) W) bs) -
            P * sum_list (map (\<lambda>b. trunc_div (b * W) T) bs)\<bar>
           \<le> int (length bs) * (W - 1)"
proof (induction bs)
  case Nil
  then show ?case by simp
next
  case (Cons b bs)
  have W0: "W \<noteq> 0" "\<bar>W\<bar> = W" using W by simp_all
  from trunc_div_abs_bound [OF T, of "b * W"]
  have c: "\<bar>T * trunc_div (b * W) T - W * b\<bar> \<le> \<bar>T\<bar> - 1" by (simp add: mult.commute)
  from trunc_div_abs_bound [OF W0(1), of "trunc_div (b * W) T * P"] W0(2)
  have f: "\<bar>W * trunc_div (trunc_div (b * W) T * P) W - P * trunc_div (b * W) T\<bar> \<le> W - 1"
    by (simp add: mult.commute)
  from Cons c f show ?case
    by (simp add: distrib_left distrib_right) linarith
qed

lemma proportion_conservation_abs:
  fixes T P W :: int
  assumes T: "T \<noteq> 0" and W: "0 < W" and P: "\<bar>P\<bar> \<le> W"
    and sum: "sum_list bs = T"
  shows "\<bar>P - sum_list (map (\<lambda>b. trunc_div (trunc_div (b * W) T * P) W) bs)\<bar> < 2 * int (length bs)"
proof -
  define Sc where "Sc = sum_list (map (\<lambda>b. trunc_div (b * W) T) bs)"
  define Sf where "Sf = sum_list (map (\<lambda>b. trunc_div (trunc_div (b * W) T * P) W) bs)"
  define n where "n = int (length bs)"
  from proportion_sums_abs [OF T W, of bs P] sum
  have 1: "\<bar>T * Sc - W * T\<bar> \<le> n * (\<bar>T\<bar> - 1)"
    and 2: "\<bar>W * Sf - P * Sc\<bar> \<le> n * (W - 1)"
    unfolding Sc_def Sf_def n_def by simp_all
  have n1: "1 \<le> n"
  proof -
    have "bs \<noteq> []" using sum T by auto
    then show ?thesis unfolding n_def by (cases bs) auto
  qed
  have Tpos: "0 < \<bar>T\<bar>" using T by simp
  have "\<bar>T\<bar> * \<bar>Sc - W\<bar> = \<bar>T * Sc - W * T\<bar>"
    by (simp add: abs_mult [symmetric] right_diff_distrib mult.commute)
  with 1 have "\<bar>T\<bar> * \<bar>Sc - W\<bar> \<le> n * (\<bar>T\<bar> - 1)" by simp
  also have "\<dots> < \<bar>T\<bar> * n" using n1 by (simp add: algebra_simps)
  finally have "\<bar>Sc - W\<bar> < n" using Tpos by (simp add: mult_less_cancel_left_pos)
  then have Sc: "\<bar>Sc - W\<bar> \<le> n - 1" by simp
  have "\<bar>P * Sc - P * W\<bar> = \<bar>P\<bar> * \<bar>Sc - W\<bar>"
    by (simp add: abs_mult [symmetric] right_diff_distrib)
  also have "\<dots> \<le> W * (n - 1)"
    using P Sc by (intro mult_mono) simp_all
  finally have 3: "\<bar>P * Sc - P * W\<bar> \<le> W * n - W" by (simp add: right_diff_distrib)
  have 4: "\<bar>W * Sf - P * Sc\<bar> \<le> W * n - n" using 2 by (simp add: right_diff_distrib mult.commute)
  from 3 4 n1 W have "\<bar>W * Sf - P * W\<bar> < 2 * (W * n)" by linarith
  moreover have "\<bar>W * Sf - P * W\<bar> = W * \<bar>P - Sf\<bar>"
  proof -
    have "W * Sf - P * W = W * (Sf - P)" by (simp add: algebra_simps)
    then show ?thesis using W by (simp add: abs_mult abs_minus_commute)
  qed
  ultimately have "W * \<bar>P - Sf\<bar> < W * (2 * n)" by (simp add: algebra_simps)
  then have "\<bar>P - Sf\<bar> < 2 * n" using W by (simp add: mult_less_cancel_left_pos)
  then show ?thesis unfolding Sf_def n_def .
qed

lemma finalProportions_div:
  assumes T: "0 < T" and P: "0 \<le> P" and bs: "\<forall>t \<in> set ts. 0 \<le> token_balance t"
  shows "finalProportions p T P ts =
         map (\<lambda>t. (token_balance t * WeiPerEther div T) * P div WeiPerEther)
             (filter (\<lambda>t. token_address t \<noteq> pool_address p) ts)"
proof -
  have W: "0 < WeiPerEther" by (simp add: WeiPerEther_def)
  have "trunc_div (trunc_div (token_balance t * WeiPerEther) T * P) WeiPerEther =
        (token_balance t * WeiPerEther div T) * P div WeiPerEther"
    if "t \<in> set ts" for t
  proof -
    from that bs W have 0: "0 \<le> token_balance t * WeiPerEther" by simp
    then have 1: "trunc_div (token_balance t * WeiPerEther) T = token_balance t * WeiPerEther div T"
      using T by (rule trunc_div_nonneg)
    have "0 \<le> token_balance t * WeiPerEther div T" using 0 T by (simp add: pos_imp_zdiv_nonneg_iff)
    then have "0 \<le> (token_balance t * WeiPerEther div T) * P" using P by simp
    from trunc_div_nonneg [OF this W] 1 show ?thesis by simp
  qed
  then show ?thesis by (simp add: finalProportions_def)
qed

lemma buildGraphFromPool_nonlinearE:
  assumes b: "buildGraphFromPool_result R fuel h addr idx par P w = Inr (h', r, idx')"
    and pool: "pools_findBy R addr = Some p"
    and nonlin: "\<not> str_includes (poolType p) ''Linear''"
  shows "\<exists>fuel' n. fuel = Suc fuel' \<and> children n = [] \<and> \<not> marked n \<and> proportionOfParent n = P \<and>
           expandTokens_result R fuel' (h @ [n]) p (getTokenTotal p) (length h) P w (tokens p) (idx + 1) =
             Inr (h', idx') \<and> r = length h"
proof (cases fuel)
  case 0
  with b show ?thesis by simp
next
  case (Suc fuel')
  from b pool Suc obtain ja ea where acts: "joinActions (poolType p) = Some ja"
    "exitActions (poolType p) = Some ea"
    by (auto split: option.splits)
  obtain sps dec where info: "poolTokenInfo R p (tokens p) ([], 18) = (sps, dec)"
    by (cases "poolTokenInfo R p (tokens p) ([], 18)")
  define n where "n =
    \<lparr>address = pool_address p, node_id = pool_id p, joinAction = ja,
     exitAction = ea, node_type = poolType p, children = [], marked = False,
     index = toString idx, proportionOfParent = P,
     parent = par, isLeaf = False, spotPrices = sps, decimals = dec\<rparr>"
  from b pool Suc acts info nonlin
  have "expandTokens_result R fuel' (h @ [n]) p (getTokenTotal p) (length h) P w (tokens p) (idx + 1) =
          Inr (h', idx') \<and> r = length h"
    by (auto simp: alloc_def n_def split: sum.splits)
  moreover have "children n = [] \<and> \<not> marked n \<and> proportionOfParent n = P" by (simp add: n_def)
  ultimately show ?thesis using Suc by blast
qed

lemma ex1_built_pool:
  "buildGraphFromPool_result R1 (Suc (Suc 0)) [] ''0xP1'' 0 None WeiPerEther False = Inr (H1, 0, 3)"
  by (simp add: R1_def P1_def H1_def eval_defs)

text \<open>
  C2, as amended. For a call of \<^verbatim>\<open>buildGraphFromPool\<close> that resolves the address to a
  pool that is not linear and returns: the node returned carries the proportion \<open>P\<close>
  passed in, and its children, in order, carry
  \<open>(balance * 10^18 / tokenTotal) * P / 10^18\<close> for the tokens of the pool other than its
  own, in order, both divisions those of \<^verbatim>\<open>BigNumber\<close>. When \<open>tokensList\<close> is the list
  of the addresses of \<open>tokens\<close> and holds the pool's own address at most once,
  \<open>tokenTotal\<close> is the sum of the balances of these tokens, the pool's own balance left
  out. When moreover the node has a child and \<open>P\<close> is at most \<open>10^18\<close> in absolute
  value, the proportions of the children add up to \<open>P\<close> within less than two units
  for every child (one for each of its two divisions); and when no balance and not \<open>P\<close>
  is negative, they add up to at most \<open>P\<close>.
\<close>

theorem children_proportions_sum_to_parent:
  assumes built: "buildGraphFromPool_result R fuel h addr idx par P w = Inr (h', r, idx')"
    and pool: "pools_findBy R addr = Some p"
    and nonlin: "\<not> str_includes (poolType p) ''Linear''"
  shows "proportionOfParent (h' ! r) = P \<and>
         map (\<lambda>c. proportionOfParent (h' ! c)) (children (h' ! r)) =
           map (\<lambda>t. trunc_div (trunc_div (token_balance t * WeiPerEther) (getTokenTotal p) * P)
                              WeiPerEther)
               (filter (\<lambda>t. token_address t \<noteq> pool_address p) (tokens p)) \<and>
         (tokensList p = map token_address (tokens p) \<and>
          count_list (tokensList p) (pool_address p) \<le> 1 \<longrightarrow>
            getTokenTotal p =
              sum_list (map token_balance
                         (filter (\<lambda>t. token_address t \<noteq> pool_address p) (tokens p)))) \<and>
         (tokensList p = map token_address (tokens p) \<and>
          count_list (tokensList p) (pool_address p) \<le> 1 \<and>
          children (h' ! r) \<noteq> [] \<and> \<bar>P\<bar> \<le> WeiPerEther \<longrightarrow>
            \<bar>P - sum_list (map (\<lambda>c. proportionOfParent (h' ! c)) (children (h' ! r)))\<bar> <
              2 * int (length (children (h' ! r)))) \<and>
         (tokensList p = map token_address (tokens p) \<and>
          count_list (tokensList p) (pool_address p) \<le> 1 \<and>
          list_all (\<lambda>t. 0 \<le> token_balance t) (tokens p) \<and> 0 \<le> P \<longrightarrow>
            sum_list (map (\<lambda>c. proportionOfParent (h' ! c)) (children (h' ! r))) \<le> P)"
proof -
  let ?T = "getTokenTotal p"
  let ?ns = "filter (\<lambda>t. token_address t \<noteq> pool_address p) (tokens p)"
  let ?f = "\<lambda>b. trunc_div (trunc_div (b * WeiPerEther) ?T * P) WeiPerEther"
  let ?kids = "map (\<lambda>c. proportionOfParent (h' ! c)) (children (h' ! r))"
  have W: "0 < WeiPerEther" by (simp add: WeiPerEther_def)
  from buildGraphFromPool_nonlinearE [OF built pool nonlin] obtain fuel' n where
    n: "children n = []" "\<not> marked n" "proportionOfParent n = P"
    and e: "expandTokens_result R fuel' (h @ [n]) p ?T (length h) P w (tokens p) (idx + 1) = Inr (h', idx')"
    and r: "r = length h"
    by blast
  have "expand_post (h @ [n]) (length h) (finalProportions p ?T P (tokens p)) h'"
    by (rule expandTokens_post [OF buildGraphFromPool_post _ node_ok_leaf [OF n(1,2)] e]) simp_all
  then obtain new where "h' ! r = n\<lparr>children := new\<rparr>"
    and props: "map (\<lambda>c. proportionOfParent (h' ! c)) new = finalProportions p ?T P (tokens p)"
    unfolding expand_post_def using r n(1) by auto
  then have kids: "children (h' ! r) = new" and pr: "proportionOfParent (h' ! r) = P"
    using n(3) by simp_all
  have list: "?kids = map (\<lambda>t. ?f (token_balance t)) ?ns"
    using props kids by (simp add: finalProportions_def)
  then have list': "?kids = map ?f (map token_balance ?ns)" by (simp add: comp_def)
  have len: "length (children (h' ! r)) = length (map token_balance ?ns)"
    using arg_cong [OF list, of length] by simp
  have Tnz: "?T \<noteq> 0" if "?ns \<noteq> []"
  proof -
    from that have "\<exists>t \<in> set (tokens p). token_address t \<noteq> pool_address p"
      by (auto simp: filter_empty_conv)
    from expandTokens_zero_total [OF this, of R fuel' "h @ [n]" "length h" P w "idx + 1"] e
    show ?thesis by auto
  qed
  have near: "\<bar>P - sum_list ?kids\<bar> < 2 * int (length (children (h' ! r)))"
    if c: "tokensList p = map token_address (tokens p)"
      "count_list (tokensList p) (pool_address p) \<le> 1"
      "children (h' ! r) \<noteq> []" "\<bar>P\<bar> \<le> WeiPerEther"
  proof -
    have ne: "?ns \<noteq> []" using list c(3) by auto
    have T: "sum_list (map token_balance ?ns) = ?T"
      using getTokenTotal_nonself [OF c(1,2)] by simp
    from proportion_conservation_abs [OF Tnz [OF ne] W c(4) T] list' len show ?thesis by simp
  qed
  have le: "sum_list ?kids \<le> P"
    if c: "tokensList p = map token_address (tokens p)"
      "count_list (tokensList p) (pool_address p) \<le> 1"
      "list_all (\<lambda>t. 0 \<le> token_balance t) (tokens p)" "0 \<le> P"
  proof (cases "?ns = []")
    case True
    with list c(4) show ?thesis by simp
  next
    case False
    from c(3) have bal: "\<forall>t \<in> set (tokens p). 0 \<le> token_balance t" by (simp add: list_all_iff)
    from Tnz [OF False] getTokenTotal_nonneg [OF bal] have Tpos: "0 < ?T" by simp
    have T: "sum_list (map token_balance ?ns) = ?T"
      using getTokenTotal_nonself [OF c(1,2)] by simp
    from finalProportions_div [OF Tpos c(4) bal, of p] list
    have "?kids = map (\<lambda>b. (b * WeiPerEther div ?T) * P div WeiPerEther) (map token_balance ?ns)"
      by (simp add: finalProportions_def comp_def)
    with proportion_sum_le [OF Tpos W c(4) T] show ?thesis by simp
  qed
  from pr list near le getTokenTotal_nonself [of p] show ?thesis by blast
qed

theorem children_proportions_sum_to_parent_witness:
  "buildGraphFromPool_result R1 (Suc (Suc 0)) [] ''0xP1'' 0 None WeiPerEther False = Inr (H1, 0, 3) \<and>
   pools_findBy R1 ''0xP1'' = Some P1 \<and> \<not> str_includes (poolType P1) ''Linear'' \<and>
   tokensList P1 = map token_address (tokens P1) \<and>
   count_list (tokensList P1) (pool_address P1) \<le> 1 \<and>
   children (H1 ! 0) \<noteq> [] \<and> \<bar>WeiPerEther\<bar> \<le> WeiPerEther \<and>
   list_all (\<lambda>t. 0 \<le> token_balance t) (tokens P1) \<and> 0 \<le> WeiPerEther \<and>
   proportionOfParent (H1 ! 0) = WeiPerEther \<and>
   map (\<lambda>c. proportionOfParent (H1 ! c)) (children (H1 ! 0)) =
     map (\<lambda>t. trunc_div (trunc_div (token_balance t * WeiPerEther) (getTokenTotal P1) * WeiPerEther)
                        WeiPerEther)
         (filter (\<lambda>t. token_address t \<noteq> pool_address P1) (tokens P1)) \<and>
   getTokenTotal P1 =
     sum_list (map token_balance
                (filter (\<lambda>t. token_address t \<noteq> pool_address P1) (tokens P1))) \<and>
   \<bar>WeiPerEther - sum_list (map (\<lambda>c. proportionOfParent (H1 ! c)) (children (H1 ! 0)))\<bar> <
     2 * int (length (children (H1 ! 0))) \<and>
   sum_list (map (\<lambda>c. proportionOfParent (H1 ! c)) (children (H1 ! 0))) \<le> WeiPerEther"
proof -
  have 1: "pools_findBy R1 ''0xP1'' = Some P1" by (simp add: R1_def)
  have 2: "\<not> str_includes (poolType P1) ''Linear''" by (simp add: P1_def)
  have 3: "tokensList P1 = map token_address (tokens P1) \<and>
           count_list (tokensList P1) (pool_address P1) \<le> 1 \<and> children (H1 ! 0) \<noteq> []"
    by (simp add: P1_def H1_def)
  have 4: "\<bar>WeiPerEther\<bar> \<le> WeiPerEther \<and> 0 \<le> WeiPerEther" by (simp add: WeiPerEther_def)
  have 5: "list_all (\<lambda>t. 0 \<le> token_balance t) (tokens P1)" by (simp add: P1_def)
  from children_proportions_sum_to_parent [OF ex1_built_pool 1 2] ex1_built_pool 1 2 3 4 5
  show ?thesis by blast
qed

text \<open>
  The counterexamples to C2 as stated, each a tree that the build returns. For \<open>P6\<close>
  the total leaves out the balance of \<open>0xa\<close> and counts the pool's own: it is 9 where
  the other tokens hold 1 and 2, and the children carry a third of the proportion of the
  node. \<open>P7\<close> holds its own token only: the node has no child, and the sum is 0. For
  \<open>P8\<close> under a proportion of \<open>10^36\<close> the sum of the two children falls short by
  \<open>10^18\<close>. \<open>P9\<close> lists its own token twice: the total counts the second balance, it
  is 6 where the other token holds 1, and the child carries a sixth of the proportion of
  the node.
\<close>

theorem children_proportions_counterexample:
  "buildGraphFromRootPool R6 (Suc (Suc 0)) ''id6'' False = Inr (H6, 0) \<and>
   getTokenTotal P6 = 9 \<and>
   map token_balance (filter (\<lambda>t. token_address t \<noteq> pool_address P6) (tokens P6)) = [1, 2] \<and>
   proportionOfParent (H6 ! 0) = 1000000000000000000 \<and>
   map (\<lambda>c. proportionOfParent (H6 ! c)) (children (H6 ! 0)) =
     [111111111111111111, 222222222222222222] \<and>
   buildGraphFromRootPool R7 (Suc (Suc 0)) ''id7'' False = Inr (H7, 0) \<and>
   proportionOfParent (H7 ! 0) = 1000000000000000000 \<and> children (H7 ! 0) = [] \<and>
   buildGraphFromPool_result R8 (Suc (Suc 0)) [] ''0xP8'' 0 None
       1000000000000000000000000000000000000 False = Inr (H8, 0, 3) \<and>
   proportionOfParent (H8 ! 0) -
     sum_list (map (\<lambda>c. proportionOfParent (H8 ! c)) (children (H8 ! 0))) = 1000000000000000000 \<and>
   buildGraphFromRootPool R9 (Suc (Suc 0)) ''id9'' False = Inr (H9, 0) \<and>
   getTokenTotal P9 = 6 \<and>
   map token_balance (filter (\<lambda>t. token_address t \<noteq> pool_address P9) (tokens P9)) = [1] \<and>
   proportionOfParent (H9 ! 0) = 1000000000000000000 \<and>
   map (\<lambda>c. proportionOfParent (H9 ! c)) (children (H9 ! 0)) = [166666666666666666]"
proof -
  have 6: "buildGraphFromRootPool R6 (Suc (Suc 0)) ''id6'' False = Inr (H6, 0)"
    by (simp add: buildGraphFromRootPool_def R6_def P6_def H6_def eval_defs)
  have 7: "buildGraphFromRootPool R7 (Suc (Suc 0)) ''id7'' False = Inr (H7, 0)"
    by (simp add: buildGraphFromRootPool_def R7_def P7_def H7_def eval_defs)
  have 8: "buildGraphFromPool_result R8 (Suc (Suc 0)) [] ''0xP8'' 0 None
       1000000000000000000000000000000000000 False = Inr (H8, 0, 3)"
    by (simp add: R8_def P8_def H8_def eval_defs)
  have 9: "buildGraphFromRootPool R9 (Suc (Suc 0)) ''id9'' False = Inr (H9, 0)"
    by (simp add: buildGraphFromRootPool_def R9_def P9_def H9_def eval_defs)
  have a: "getTokenTotal P6 = 9 \<and>
    map token_balance (filter (\<lambda>t. token_address t \<noteq> pool_address P6) (tokens P6)) = [1, 2] \<and>
    proportionOfParent (H6 ! 0) = 1000000000000000000 \<and>
    map (\<lambda>c. proportionOfParent (H6 ! c)) (children (H6 ! 0)) =
      [111111111111111111, 222222222222222222]"
    by (simp add: P6_def H6_def getTokenTotal_def parsedBalances_def)
  have b: "proportionOfParent (H7 ! 0) = 1000000000000000000 \<and> children (H7 ! 0) = []"
    by (simp add: H7_def)
  have c: "proportionOfParent (H8 ! 0) -
     sum_list (map (\<lambda>c. proportionOfParent (H8 ! c)) (children (H8 ! 0))) = 1000000000000000000"
    by (simp add: H8_def)
  have d: "getTokenTotal P9 = 6 \<and>
    map token_balance (filter (\<lambda>t. token_address t \<noteq> pool_address P9) (tokens P9)) = [1] \<and>
    proportionOfParent (H9 ! 0) = 1000000000000000000 \<and>
    map (\<lambda>c. proportionOfParent (H9 ! c)) (children (H9 ! 0)) = [166666666666666666]"
    by (simp add: P9_def H9_def getTokenTotal_def parsedBalances_def)
  from 6 7 8 9 a b c d show ?thesis by blast
qed

end
